theory Spec2Isabelle
  imports Complex_Main
begin

section \<open>The ant solver for graph colouring (ant\_solver.py)\<close>

text \<open>
  A shallow embedding of the class \<open>AntSolver\<close>. The solver colours the nodes of a
  networkx graph; every node carries an attribute dictionary with the keys \<open>'color'\<close>
  and \<open>'cost'\<close>. The attribute dictionaries are mutable objects which several graph
  objects can share (\<open>Graph.subgraph\<close> of networkx 1.x hands out the dictionaries of
  the original graph, \<open>Graph.copy\<close> makes new ones), so they live in an explicit heap
  and a graph refers to them by address.
\<close>

subsection \<open>Errors\<close>

text \<open>The exceptions that the methods and the library calls they make can raise.\<close>

datatype error = NetworkXError | KeyError | ValueError | IndexError | ZeroDivisionError

subsection \<open>Graphs and the heap of attribute dictionaries\<close>

type_synonym nid = nat
type_synonym addr = nat

text \<open>A node attribute dictionary: a key that is absent is \<open>None\<close>.\<close>

record attrs =
  color :: "int option"
  cost :: "nat option"

record heap =
  cells :: "addr \<Rightarrow> attrs"
  fresh :: addr

text \<open>
  A graph object: \<open>nodes\<close> is the order of \<open>g.nodes_iter()\<close>, \<open>adj g n\<close> the list
  \<open>nx.neighbors(g, n)\<close>, and \<open>node g n\<close> the address of the dictionary \<open>g.node[n]\<close>.
  The program never adds or removes a node or an edge, so the adjacency is kept by value.
\<close>

record graph =
  nodes :: "nid list"
  adj :: "nid \<Rightarrow> nid list"
  node :: "nid \<Rightarrow> addr"

definition color_of :: "heap \<Rightarrow> graph \<Rightarrow> nid \<Rightarrow> int option" where
  "color_of h gr n = color (cells h (node gr n))"

definition cost_of :: "heap \<Rightarrow> graph \<Rightarrow> nid \<Rightarrow> nat option" where
  "cost_of h gr n = cost (cells h (node gr n))"

definition set_color :: "heap \<Rightarrow> addr \<Rightarrow> int \<Rightarrow> heap" where
  "set_color h a c = h\<lparr>cells := (cells h)(a := (cells h a)\<lparr>color := Some c\<rparr>)\<rparr>"

definition set_cost :: "heap \<Rightarrow> addr \<Rightarrow> nat \<Rightarrow> heap" where
  "set_cost h a c = h\<lparr>cells := (cells h)(a := (cells h a)\<lparr>cost := Some c\<rparr>)\<rparr>"

text \<open>The position of the first occurrence of \<open>x\<close> in \<open>xs\<close>.\<close>

definition index_of :: "'a list \<Rightarrow> 'a \<Rightarrow> nat" where
  "index_of xs x = length (takeWhile (\<lambda>y. y \<noteq> x) xs)"

text \<open>
  \<open>Graph.copy()\<close> (a deep copy in networkx 1.x): one new dictionary for each dictionary
  of the graph, with the same contents. The \<open>j\<close>-th node's dictionary is copied to the
  address \<open>fresh h + j\<close>; a node is given the copy made for the first node that has the
  same dictionary, as the memo of \<open>deepcopy\<close> does.
\<close>

definition copy_graph :: "graph \<Rightarrow> heap \<Rightarrow> graph \<times> heap" where
  "copy_graph gr h =
     (let k = fresh h; ns = nodes gr in
      (gr\<lparr>node := (\<lambda>n. k + index_of (map (node gr) ns) (node gr n))\<rparr>,
       h\<lparr>cells := (\<lambda>a. if k \<le> a \<and> a < k + length ns
                        then cells h (node gr (ns ! (a - k))) else cells h a),
         fresh := k + length ns\<rparr>))"

text \<open>
  \<open>g.subgraph(nbunch)\<close> of networkx 1.x: the nodes of \<open>nbunch\<close> that are in the graph,
  the edges between them, and the attribute dictionaries of the original graph
  themselves (not copies). The order inside the neighbour lists of the subgraph differs
  from the one written here; its only readers, \<open>conflict_level\<close> and
  \<open>local_potential\<close>, sum over the neighbours.
\<close>

definition subgraph :: "graph \<Rightarrow> nid list \<Rightarrow> graph" where
  "subgraph gr nbunch =
     gr\<lparr>nodes := filter (\<lambda>n. n \<in> set nbunch) (nodes gr),
        adj := (\<lambda>n. filter (\<lambda>m. m \<in> set nbunch) (adj gr n))\<rparr>"

text \<open>\<open>nx.degree(g)[n]\<close>: a self-loop counts twice.\<close>

definition degree :: "graph \<Rightarrow> nid \<Rightarrow> nat" where
  "degree gr n = length (adj gr n) + (if n \<in> set (adj gr n) then 1 else 0)"

text \<open>\<open>max(nx.degree(g).values()) + 1\<close>; \<open>max\<close> of an empty sequence raises.\<close>

definition max_c :: "graph \<Rightarrow> error + int" where
  "max_c gr = (if nodes gr = [] then Inl ValueError
               else Inr (int (fold max (map (degree gr) (nodes gr)) 0) + 1))"

subsection \<open>The random generator and the clock\<close>

text \<open>
  numpy's global generator and \<open>time.perf_counter\<close> are not part of the repository.
  Both are oracles here: an infinite sequence of outputs, read from the front. One
  output of the generator is read as a float in \<open>[0, 1)\<close> by \<open>np.random.random\<close> and as
  an index, modulo the size of the population, by \<open>np.random.choice\<close>.
\<close>

type_synonym rng = "nat \<Rightarrow> real \<times> nat"
type_synonym clock = "nat \<Rightarrow> real"

definition rng_next :: "rng \<Rightarrow> (real \<times> nat) \<times> rng" where
  "rng_next r = (r 0, (\<lambda>k. r (Suc k)))"

definition np_random :: "rng \<Rightarrow> real \<times> rng" where
  "np_random r = (let (d, r') = rng_next r in (fst d, r'))"

text \<open>\<open>np.random.choice(a)\<close>: one element of \<open>a\<close>; it raises on an empty population.\<close>

definition np_choice :: "'a list \<Rightarrow> rng \<Rightarrow> error + ('a \<times> rng)" where
  "np_choice xs r =
     (if xs = [] then Inl ValueError
      else (let (d, r') = rng_next r in Inr (xs ! (snd d mod length xs), r')))"

text \<open>Drawing \<open>k\<close> elements one after the other, each removed from the pool.\<close>

primrec sample_norepl :: "nat \<Rightarrow> 'a list \<Rightarrow> rng \<Rightarrow> 'a list \<times> rng" where
  "sample_norepl 0 pool r = ([], r)"
| "sample_norepl (Suc k) pool r =
     (let (d, r1) = rng_next r;
          j = snd d mod length pool;
          (rest, r2) = sample_norepl k (take j pool @ drop (Suc j) pool) r1
      in (pool ! j # rest, r2))"

text \<open>
  \<open>np.random.choice(a, size, replace=False)\<close>: it raises on an empty population (numpy
  of the time of networkx 1.x), on a negative size and on a size above the population.
\<close>

definition np_choice_norepl :: "'a list \<Rightarrow> int \<Rightarrow> rng \<Rightarrow> error + ('a list \<times> rng)" where
  "np_choice_norepl xs sz r =
     (if xs = [] \<or> sz < 0 \<or> int (length xs) < sz then Inl ValueError
      else Inr (sample_norepl (nat sz) xs r))"

definition arange :: "int \<Rightarrow> nat list" where
  "arange n = [0 ..< nat n]"

text \<open>
  \<open>argmax\<close> and \<open>argmin\<close> of a numpy array: a scan from the left that keeps the index
  of the best value seen and moves only to a strictly better one.
\<close>

fun argmax_scan :: "nat \<Rightarrow> nat \<Rightarrow> nat \<Rightarrow> nat list \<Rightarrow> nat" where
  "argmax_scan bi bv k [] = bi"
| "argmax_scan bi bv k (x # xs) =
     (if bv < x then argmax_scan k x (Suc k) xs else argmax_scan bi bv (Suc k) xs)"

fun argmin_scan :: "nat \<Rightarrow> nat \<Rightarrow> nat \<Rightarrow> nat list \<Rightarrow> nat" where
  "argmin_scan bi bv k [] = bi"
| "argmin_scan bi bv k (x # xs) =
     (if x < bv then argmin_scan k x (Suc k) xs else argmin_scan bi bv (Suc k) xs)"

definition argmax :: "nat list \<Rightarrow> error + nat" where
  "argmax xs = (case xs of [] \<Rightarrow> Inl ValueError | x # ys \<Rightarrow> Inr (argmax_scan 0 x 1 ys))"

definition argmin :: "nat list \<Rightarrow> error + nat" where
  "argmin xs = (case xs of [] \<Rightarrow> Inl ValueError | x # ys \<Rightarrow> Inr (argmin_scan 0 x 1 ys))"

subsection \<open>Conflict level, local potential, total cost\<close>

text \<open>Summing the results of \<open>f\<close> over a list; the first exception ends it.\<close>

fun sum_all :: "('a \<Rightarrow> error + nat) \<Rightarrow> 'a list \<Rightarrow> error + nat" where
  "sum_all f [] = Inr 0"
| "sum_all f (x # xs) =
     (case f x of Inl e \<Rightarrow> Inl e
      | Inr v \<Rightarrow> (case sum_all f xs of Inl e \<Rightarrow> Inl e | Inr s \<Rightarrow> Inr (v + s)))"

text \<open>Collecting the results of \<open>f\<close> over a list; the first exception ends it.\<close>

fun collect :: "('a \<Rightarrow> error + 'b) \<Rightarrow> 'a list \<Rightarrow> error + 'b list" where
  "collect f [] = Inr []"
| "collect f (x # xs) =
     (case f x of Inl e \<Rightarrow> Inl e
      | Inr v \<Rightarrow> (case collect f xs of Inl e \<Rightarrow> Inl e | Inr vs \<Rightarrow> Inr (v # vs)))"

text \<open>
  \<open>conflict_level(g, n)\<close>: \<open>nx.neighbors\<close> raises for a node that is not in the graph;
  the colours are read only when there is a neighbour to compare with.
\<close>

definition conflict_level :: "heap \<Rightarrow> graph \<Rightarrow> nid \<Rightarrow> error + nat" where
  "conflict_level h gr n =
     (if n \<notin> set (nodes gr) then Inl NetworkXError
      else if adj gr n = [] then Inr 0
      else (case color_of h gr n of
              None \<Rightarrow> Inl KeyError
            | Some cn \<Rightarrow>
                if (\<exists>nei \<in> set (adj gr n). color_of h gr nei = None) then Inl KeyError
                else Inr (length (filter (\<lambda>nei. color_of h gr nei = Some cn) (adj gr n)))))"

definition local_potential :: "heap \<Rightarrow> graph \<Rightarrow> nid \<Rightarrow> error + nat" where
  "local_potential h gr n =
     (if n \<notin> set (nodes gr) then Inl NetworkXError
      else (case sum_all (conflict_level h gr) (adj gr n) of
              Inl e \<Rightarrow> Inl e
            | Inr neigs \<Rightarrow>
                (case conflict_level h gr n of Inl e \<Rightarrow> Inl e | Inr c \<Rightarrow> Inr (c + neigs))))"

definition read_cost :: "heap \<Rightarrow> graph \<Rightarrow> nid \<Rightarrow> error + nat" where
  "read_cost h gr n = (case cost_of h gr n of None \<Rightarrow> Inl KeyError | Some c \<Rightarrow> Inr c)"

definition total_cost :: "heap \<Rightarrow> graph \<Rightarrow> error + nat" where
  "total_cost h gr = sum_all (read_cost h gr) (nodes gr)"

text \<open>
  \<open>random_node_coloring(g, n)\<close>: the palette is \<open>max_c\<close> colours when \<open>n\<close> is \<open>None\<close> or
  above \<open>max_c\<close>, and \<open>n\<close> colours otherwise.
\<close>

fun color_nodes :: "nat list \<Rightarrow> nid list \<Rightarrow> graph \<Rightarrow> heap \<Rightarrow> rng \<Rightarrow> error + (heap \<times> rng)" where
  "color_nodes colors [] gr h r = Inr (h, r)"
| "color_nodes colors (n # ns) gr h r =
     (case np_choice colors r of
        Inl e \<Rightarrow> Inl e
      | Inr (c, r') \<Rightarrow> color_nodes colors ns gr (set_color h (node gr n) (int c)) r')"

definition random_node_coloring ::
  "graph \<Rightarrow> int option \<Rightarrow> heap \<Rightarrow> rng \<Rightarrow> error + (heap \<times> rng)" where
  "random_node_coloring gr n h r =
     (case max_c gr of
        Inl e \<Rightarrow> Inl e
      | Inr mc \<Rightarrow>
          (let n_cols = (case n of None \<Rightarrow> mc | Some k \<Rightarrow> if mc < k then mc else k)
           in color_nodes (arange n_cols) (nodes gr) gr h r))"

subsection \<open>The solver object\<close>

text \<open>
  The attributes of an \<open>AntSolver\<close> (\<open>self.g\<close> and \<open>self.i\<close> are \<open>self_g\<close> and
  \<open>self_i\<close>), together with what the methods read and change outside the object: the
  heap, numpy's generator and the clock.
\<close>

record solver =
  order_2 :: bool
  verbose :: bool
  max_time :: real
  n_colors :: int
  max_iters :: int
  n_ants :: int
  pc :: real
  pn :: real
  self_g :: graph
  self_i :: int
  ants :: "nid list"
  best :: graph
  cost_best :: nat
  curr_cost :: nat
  first_best :: nat
  heap :: heap
  rng :: rng
  clock :: clock

text \<open>The keyword arguments of the constructor.\<close>

record args =
  arg_n_colors :: "int option"
  arg_n_ants :: int
  arg_pre_colored :: bool
  arg_pc :: real
  arg_pn :: real
  arg_max_iters :: int
  arg_max_time :: real
  arg_order_2 :: bool
  arg_verbose :: bool

definition perf_counter :: "solver \<Rightarrow> real \<times> solver" where
  "perf_counter st = (clock st 0, st\<lparr>clock := (\<lambda>k. clock st (Suc k))\<rparr>)"

text \<open>
  \<open>worst_adjacent_node(n, order_2)\<close>: the pairs (neighbour, metric) are collected, then
  the column of metrics is sliced out of the array; for a node without neighbours the
  array has one dimension and the slice raises \<open>IndexError\<close>.
\<close>

definition worst_adjacent_node :: "heap \<Rightarrow> graph \<Rightarrow> nid \<Rightarrow> bool \<Rightarrow> error + nid" where
  "worst_adjacent_node h gr n o2 =
     (if n \<notin> set (nodes gr) then Inl NetworkXError
      else (case collect (if o2 then local_potential h gr else read_cost h gr) (adj gr n) of
              Inl e \<Rightarrow> Inl e
            | Inr ms \<Rightarrow>
                if adj gr n = [] then Inl IndexError
                else (case argmax ms of Inl e \<Rightarrow> Inl e | Inr k \<Rightarrow> Inr (adj gr n ! k))))"

text \<open>
  The loop of \<open>change_to_best\<close> over the candidate colours: each trial writes the colour
  into \<open>g_test.node[ant]\<close>, which is the dictionary \<open>self.g.node[ant]\<close> itself, and
  appends the metric of \<open>ant\<close> in \<open>g_test\<close>.
\<close>

fun trial_costs :: "heap \<Rightarrow> graph \<Rightarrow> nid \<Rightarrow> bool \<Rightarrow> nat list \<Rightarrow> error + (nat list \<times> heap)" where
  "trial_costs h g_test ant o2 [] = Inr ([], h)"
| "trial_costs h g_test ant o2 (c # cs) =
     (let h1 = set_color h (node g_test ant) (int c) in
      case (if o2 then local_potential h1 g_test ant else conflict_level h1 g_test ant) of
        Inl e \<Rightarrow> Inl e
      | Inr v \<Rightarrow>
          (case trial_costs h1 g_test ant o2 cs of
             Inl e \<Rightarrow> Inl e
           | Inr (vs, h2) \<Rightarrow> Inr (v # vs, h2)))"

definition change_to_best :: "heap \<Rightarrow> graph \<Rightarrow> int \<Rightarrow> nid \<Rightarrow> bool \<Rightarrow> error + heap" where
  "change_to_best h gr ncols ant o2 =
     (if ant \<notin> set (nodes gr) then Inl NetworkXError
      else (let g_test = subgraph gr (ant # adj gr ant) in
            case trial_costs h g_test ant o2 (arange ncols) of
              Inl e \<Rightarrow> Inl e
            | Inr (cs, h1) \<Rightarrow>
                (case argmin cs of
                   Inl e \<Rightarrow> Inl e
                 | Inr b \<Rightarrow> Inr (set_color h1 (node gr ant) (int b)))))"

definition change_to_random :: "heap \<Rightarrow> graph \<Rightarrow> int \<Rightarrow> nid \<Rightarrow> rng \<Rightarrow> error + (heap \<times> rng)" where
  "change_to_random h gr ncols ant r =
     (case np_choice (arange ncols) r of
        Inl e \<Rightarrow> Inl e
      | Inr (c, r') \<Rightarrow> Inr (set_color h (node gr ant) (int c), r'))"

text \<open>Writing \<open>g.node[n]['cost'] = conflict_level(g, n)\<close> for the nodes of a list in turn.\<close>

fun refresh_costs :: "graph \<Rightarrow> nid list \<Rightarrow> heap \<Rightarrow> error + heap" where
  "refresh_costs gr [] h = Inr h"
| "refresh_costs gr (n # ns) h =
     (case conflict_level h gr n of
        Inl e \<Rightarrow> Inl e
      | Inr c \<Rightarrow> refresh_costs gr ns (set_cost h (node gr n) c))"

text \<open>
  \<open>init_solver\<close>, on the attributes that \<open>__init__\<close> has set (the fields \<open>ants\<close>,
  \<open>best\<close>, \<open>cost_best\<close>, \<open>curr_cost\<close> and \<open>first_best\<close> of the argument are not read).
\<close>

definition init_solver :: "solver \<Rightarrow> error + solver" where
  "init_solver st =
     (case np_choice_norepl (arange (n_ants st)) (n_ants st) (rng st) of
        Inl e \<Rightarrow> Inl e
      | Inr (as, r') \<Rightarrow>
          (case refresh_costs (self_g st) (nodes (self_g st)) (heap st) of
             Inl e \<Rightarrow> Inl e
           | Inr h1 \<Rightarrow>
               (let (b, h2) = copy_graph (self_g st) h1 in
                case total_cost h2 (self_g st) of
                  Inl e \<Rightarrow> Inl e
                | Inr c \<Rightarrow>
                    Inr (st\<lparr>ants := as, rng := r', heap := h2, best := b,
                            cost_best := c, curr_cost := c, first_best := c\<rparr>))))"

text \<open>
  \<open>AntSolver(g, ...)\<close>: the caller's graph \<open>g0\<close> lives in the heap \<open>h0\<close>. Nothing is
  checked; the only exceptions are those of the calls made.
\<close>

definition AntSolver :: "args \<Rightarrow> graph \<Rightarrow> heap \<Rightarrow> rng \<Rightarrow> clock \<Rightarrow> error + solver" where
  "AntSolver a g0 h0 r0 clk =
     (case max_c g0 of
        Inl e \<Rightarrow> Inl e
      | Inr mc \<Rightarrow>
          (let ncols = (case arg_n_colors a of None \<Rightarrow> mc | Some k \<Rightarrow> k);
               nants = min (arg_n_ants a) (int (length (nodes g0)));
               (g1, h1) = copy_graph g0 h0;
               st = \<lparr>order_2 = arg_order_2 a, verbose = arg_verbose a,
                     max_time = arg_max_time a, n_colors = ncols,
                     max_iters = arg_max_iters a, n_ants = nants,
                     pc = arg_pc a, pn = arg_pn a, self_g = g1, self_i = 0,
                     ants = [], best = g1, cost_best = 0, curr_cost = 0, first_best = 0,
                     heap = h1, rng = r0, clock = clk\<rparr>
           in if arg_pre_colored a then init_solver st
              else (case random_node_coloring g1 (Some ncols) h1 r0 of
                      Inl e \<Rightarrow> Inl e
                    | Inr (h2, r1) \<Rightarrow>
                        (let (g2, h3) = copy_graph g1 h2
                         in init_solver (st\<lparr>self_g := g2, heap := h3, rng := r1\<rparr>)))))"

subsection \<open>One ant, one sweep, the loop of solve\<close>

text \<open>
  The body of the loop over the ants for the ant with index \<open>a\<close>. \<open>print_status\<close> only
  displays, but it divides by \<open>_first_best\<close> before it does.
\<close>

definition ant_step :: "nat \<Rightarrow> solver \<Rightarrow> error + solver" where
  "ant_step a st =
     (if verbose st \<and> first_best st = 0 then Inl ZeroDivisionError
      else if length (ants st) \<le> a then Inl IndexError
      else
        (let n0 = ants st ! a;
             (u, r1) = np_random (rng st);
             moved = (if u < pc st
                      then (case worst_adjacent_node (heap st) (self_g st) n0 (order_2 st) of
                              Inl e \<Rightarrow> Inl e | Inr n1 \<Rightarrow> Inr (n1, r1))
                      else (if n0 \<notin> set (nodes (self_g st)) then Inl NetworkXError
                            else np_choice (adj (self_g st) n0) r1))
         in case moved of
              Inl e \<Rightarrow> Inl e
            | Inr (n1, r2) \<Rightarrow>
                (let (v, r3) = np_random r2;
                     colored = (if v < pn st
                                then (case change_to_best (heap st) (self_g st) (n_colors st) n1
                                             (order_2 st) of
                                        Inl e \<Rightarrow> Inl e | Inr h1 \<Rightarrow> Inr (h1, r3))
                                else change_to_random (heap st) (self_g st) (n_colors st) n1 r3)
                 in case colored of
                      Inl e \<Rightarrow> Inl e
                    | Inr (h1, r4) \<Rightarrow>
                        (case refresh_costs (self_g st) (n1 # adj (self_g st) n1) h1 of
                           Inl e \<Rightarrow> Inl e
                         | Inr h2 \<Rightarrow>
                             Inr (st\<lparr>ants := (ants st)[a := n1], heap := h2, rng := r4\<rparr>)))))"

fun ants_loop :: "nat list \<Rightarrow> solver \<Rightarrow> error + solver" where
  "ants_loop [] st = Inr st"
| "ants_loop (a # as) st =
     (case ant_step a st of Inl e \<Rightarrow> Inl e | Inr st' \<Rightarrow> ants_loop as st')"

definition sweep :: "solver \<Rightarrow> error + solver" where
  "sweep st = ants_loop [0 ..< nat (n_ants st)] st"

text \<open>After the ants: the total cost is recomputed and a strictly better colouring is kept.\<close>

definition keep_best :: "solver \<Rightarrow> error + solver" where
  "keep_best st =
     (case total_cost (heap st) (self_g st) of
        Inl e \<Rightarrow> Inl e
      | Inr c \<Rightarrow>
          (if c < cost_best st
           then (let (b, h') = copy_graph (self_g st) (heap st)
                 in Inr (st\<lparr>curr_cost := c, best := b, heap := h', cost_best := c\<rparr>))
           else Inr (st\<lparr>curr_cost := c\<rparr>)))"

text \<open>
  The \<open>while\<close> loop of \<open>solve\<close>. \<open>tic\<close> is the reading of the clock at the start. The
  statement \<open>self.i += 1\<close> stands after \<open>break\<close> inside the \<open>if\<close>, so no path runs it.
  The list \<open>tr\<close> is not a variable of the program: it collects the state at the end of
  each completed sweep (after the update of the best colouring), oldest first, so that
  properties of a whole run can be stated. The value \<open>None\<close> is a run that never ends.
\<close>

partial_function (option) solve_loop ::
  "real \<Rightarrow> solver \<Rightarrow> solver list \<Rightarrow> (error + solver \<times> solver list) option" where
  "solve_loop tic st tr =
     (if \<not> (0 < cost_best st \<and> self_i st < max_iters st) then Some (Inr (st, tr))
      else (let (t, st1) = perf_counter st in
            if \<not> (t - tic < max_time st1) then Some (Inr (st1, tr))
            else (case sweep st1 of
                    Inl e \<Rightarrow> Some (Inl e)
                  | Inr st2 \<Rightarrow>
                      (case keep_best st2 of
                         Inl e \<Rightarrow> Some (Inl e)
                       | Inr st3 \<Rightarrow>
                           if cost_best st3 = 0 then Some (Inr (st3, tr @ [st3]))
                           else (let (t', st4) = perf_counter st3 in
                                 if max_time st4 < t' - tic then Some (Inr (st4, tr @ [st3]))
                                 else solve_loop tic st4 (tr @ [st3]))))))"

definition solve :: "solver \<Rightarrow> (error + solver \<times> solver list) option" where
  "solve st = (let (tic, st1) = perf_counter st in solve_loop tic (st1\<lparr>self_i := 0\<rparr>) [])"

subsection \<open>Notions used to state the properties\<close>

text \<open>The number of neighbours of \<open>n\<close> that have the colour of \<open>n\<close>.\<close>

definition conflicts :: "heap \<Rightarrow> graph \<Rightarrow> nid \<Rightarrow> nat" where
  "conflicts h gr n = length (filter (\<lambda>m. color_of h gr m = color_of h gr n) (adj gr n))"

text \<open>Every node has the key \<open>'color'\<close>.\<close>

definition colored :: "heap \<Rightarrow> graph \<Rightarrow> bool" where
  "colored h gr = (\<forall>n \<in> set (nodes gr). color_of h gr n \<noteq> None)"

text \<open>The neighbours of a node are nodes.\<close>

definition closed_adj :: "graph \<Rightarrow> bool" where
  "closed_adj gr = (\<forall>n \<in> set (nodes gr). \<forall>m \<in> set (adj gr n). m \<in> set (nodes gr))"

text \<open>Every node has a dictionary of its own, and the dictionaries are allocated.\<close>

definition own_dicts :: "heap \<Rightarrow> graph \<Rightarrow> bool" where
  "own_dicts h gr = (distinct (map (node gr) (nodes gr)) \<and>
                     (\<forall>n \<in> set (nodes gr). node gr n < fresh h))"

text \<open>
  What the class \<open>networkx.Graph\<close> guarantees of each of its objects: the nodes are the
  keys of a dictionary, each with a dictionary of attributes of its own; the neighbours
  of a node are the keys of a dictionary and are nodes; an edge is stored at both ends.
\<close>

definition nx_graph :: "graph \<Rightarrow> bool" where
  "nx_graph gr = (distinct (map (node gr) (nodes gr)) \<and> closed_adj gr \<and>
     (\<forall>n \<in> set (nodes gr). distinct (adj gr n) \<and> (\<forall>m \<in> set (adj gr n). n \<in> set (adj gr m))))"

text \<open>A simple graph has no edge from a node to itself.\<close>

definition no_self_loops :: "graph \<Rightarrow> bool" where
  "no_self_loops gr = (\<forall>n \<in> set (nodes gr). n \<notin> set (adj gr n))"

text \<open>The cached cost of every node is the number of its neighbours of its colour.\<close>

definition costs_cached :: "heap \<Rightarrow> graph \<Rightarrow> bool" where
  "costs_cached h gr = (\<forall>n \<in> set (nodes gr). cost_of h gr n = Some (conflicts h gr n))"

text \<open>
  The edges, each once, as the pair with the smaller end first, and the number of edges
  whose two ends have the same colour.
\<close>

definition edges :: "graph \<Rightarrow> (nid \<times> nid) list" where
  "edges gr = concat (map (\<lambda>u. map (Pair u) (filter (\<lambda>v. u < v) (adj gr u))) (nodes gr))"

definition conflicting_edges :: "heap \<Rightarrow> graph \<Rightarrow> nat" where
  "conflicting_edges h gr =
     length (filter (\<lambda>(u, v). color_of h gr u = color_of h gr v) (edges gr))"

text \<open>
  The dictionaries of the best snapshot are allocated and none of them is a dictionary
  of the working graph.
\<close>

definition best_apart :: "solver \<Rightarrow> bool" where
  "best_apart st =
     (\<forall>m \<in> set (nodes (best st)).
        node (best st) m < fresh (heap st) \<and>
        (\<forall>n \<in> set (nodes (self_g st)). node (self_g st) n \<noteq> node (best st) m))"

text \<open>The state of a solver whose working graph is in order and whose costs are cached.\<close>

definition solver_ok :: "solver \<Rightarrow> bool" where
  "solver_ok st = (nx_graph (self_g st) \<and> own_dicts (heap st) (self_g st) \<and>
                   costs_cached (heap st) (self_g st) \<and> best_apart st)"

text \<open>
  The states a solver built on the graph \<open>g0\<close> in the heap \<open>h0\<close> can be in: the state
  after the construction, and the states after each step of \<open>solve\<close> from there (an
  ant's move, colouring and refresh of costs; the update of the best colouring after a
  sweep; a reading of the clock; the reset of the counter).
\<close>

inductive reachable :: "graph \<Rightarrow> heap \<Rightarrow> solver \<Rightarrow> bool" for g0 h0 where
  constructed: "AntSolver a g0 h0 r clk = Inr st \<Longrightarrow> reachable g0 h0 st"
| ant_moved: "reachable g0 h0 st \<Longrightarrow> ant_step k st = Inr st' \<Longrightarrow> reachable g0 h0 st'"
| best_kept: "reachable g0 h0 st \<Longrightarrow> keep_best st = Inr st' \<Longrightarrow> reachable g0 h0 st'"
| clock_read: "reachable g0 h0 st \<Longrightarrow> reachable g0 h0 (snd (perf_counter st))"
| counter_reset: "reachable g0 h0 st \<Longrightarrow> reachable g0 h0 (st\<lparr>self_i := 0\<rparr>)"

text \<open>
  What holds between the state \<open>p\<close> before a sweep and the state \<open>s\<close> after it and after
  the update of the best colouring that follows: the working graph is the same object
  and in order, \<open>curr_cost\<close> is the total cost of \<open>s\<close>, \<open>cost_best\<close> is the smaller of
  the former \<open>cost_best\<close> and \<open>curr_cost\<close>; on a strict improvement the snapshot has the
  colours of the working graph, otherwise it is the former snapshot, with its
  dictionaries as they were.
\<close>

definition sweep_pair :: "solver \<Rightarrow> solver \<Rightarrow> bool" where
  "sweep_pair p s =
     (solver_ok s \<and> self_g s = self_g p \<and>
      total_cost (heap s) (self_g s) = Inr (curr_cost s) \<and>
      cost_best s = min (cost_best p) (curr_cost s) \<and>
      (if curr_cost s < cost_best p
       then nodes (best s) = nodes (self_g s) \<and>
            (\<forall>n \<in> set (nodes (self_g s)).
               color_of (heap s) (best s) n = color_of (heap s) (self_g s) n)
       else best s = best p \<and>
            (\<forall>m \<in> set (nodes (best p)).
               cells (heap s) (node (best p) m) = cells (heap p) (node (best p) m))))"

text \<open>\<open>sweep_pair\<close> along a list of states, from the state \<open>p\<close> on.\<close>

fun trail :: "solver \<Rightarrow> solver list \<Rightarrow> bool" where
  "trail p [] = True"
| "trail p (s # ss) = (sweep_pair p s \<and> trail s ss)"

text \<open>
  The states that follow a state \<open>p\<close>: those that the steps of \<open>solve\<close> lead to from
  \<open>p\<close>, in any number.
\<close>

inductive later :: "solver \<Rightarrow> solver \<Rightarrow> bool" for p where
  now: "later p p"
| after_ant: "later p st \<Longrightarrow> ant_step k st = Inr st' \<Longrightarrow> later p st'"
| after_best: "later p st \<Longrightarrow> keep_best st = Inr st' \<Longrightarrow> later p st'"
| after_clock: "later p st \<Longrightarrow> later p (snd (perf_counter st))"
| after_reset: "later p st \<Longrightarrow> later p (st\<lparr>self_i := 0\<rparr>)"

text \<open>
  What a run of the loop of \<open>solve\<close> from an orderly state \<open>st\<close> with the list \<open>tr\<close> has to
  return, if it returns states: the list grown by the states after the sweeps, which
  form a trail from \<open>st\<close>; as final state the last of them, but for the clock; and only
  states that follow \<open>st\<close>.
\<close>

definition run_ok :: "solver \<Rightarrow> solver list \<Rightarrow> error + solver \<times> solver list \<Rightarrow> bool" where
  "run_ok st tr y =
     (solver_ok st \<longrightarrow>
      (\<forall>st' tr'. y = Inr (st', tr') \<longrightarrow>
         (\<exists>new c. tr' = tr @ new \<and> trail st new \<and> st' = (last (st # new))\<lparr>clock := c\<rparr> \<and>
                  (\<forall>s \<in> set (st' # new). later st s))))"

subsection \<open>Small graphs for concrete runs\<close>

text \<open>
  The path \<open>0 - 1 - 2\<close>, its dictionaries at the addresses \<open>0\<close>, \<open>1\<close>, \<open>2\<close>; in
  \<open>heap_path\<close> every node has the colour \<open>0\<close> and its conflict level as cost.
\<close>

definition g_path :: graph where
  "g_path = \<lparr>nodes = [0, 1, 2],
             adj = (\<lambda>n. if n = 0 then [1] else if n = 1 then [0, 2]
                        else if n = 2 then [1] else []),
             node = (\<lambda>n. n)\<rparr>"

definition heap_path :: heap where
  "heap_path = \<lparr>cells = (\<lambda>a. \<lparr>color = Some 0, cost = Some (if a = 1 then 2 else 1)\<rparr>),
                fresh = 3\<rparr>"

text \<open>
  A single edge \<open>0 - 1\<close>, both ends of colour \<open>0\<close> and no cost yet; a generator whose
  every output is \<open>0\<close>, so that an ant moves to the worst neighbour and takes the best
  colour.
\<close>

definition g_edge :: graph where
  "g_edge = \<lparr>nodes = [0, 1],
             adj = (\<lambda>n. if n = 0 then [1] else if n = 1 then [0] else []),
             node = (\<lambda>n. n)\<rparr>"

definition heap_edge :: heap where
  "heap_edge = \<lparr>cells = (\<lambda>a. \<lparr>color = Some 0, cost = None\<rparr>), fresh = 2\<rparr>"

definition rng_zero :: rng where
  "rng_zero = (\<lambda>k. (0, 0))"

text \<open>Arguments outside the documented ranges.\<close>

definition args_unchecked :: args where
  "args_unchecked = \<lparr>arg_n_colors = Some 0, arg_n_ants = 1, arg_pre_colored = True,
     arg_pc = 2, arg_pn = - 1, arg_max_iters = 1, arg_max_time = 1,
     arg_order_2 = False, arg_verbose = True\<rparr>"

text \<open>More colours asked for than the largest degree plus one, and no colouring given.\<close>

definition args_wide :: args where
  "args_wide = \<lparr>arg_n_colors = Some 5, arg_n_ants = 1, arg_pre_colored = False,
     arg_pc = 4/5, arg_pn = 4/5, arg_max_iters = 1, arg_max_time = 1,
     arg_order_2 = False, arg_verbose = True\<rparr>"

text \<open>A single edge between the nodes \<open>1\<close> and \<open>2\<close>: the graph has no node \<open>0\<close>.\<close>

definition g_12 :: graph where
  "g_12 = \<lparr>nodes = [1, 2],
           adj = (\<lambda>n. if n = 1 then [2] else if n = 2 then [1] else []),
           node = (\<lambda>n. n)\<rparr>"

definition heap_12 :: heap where
  "heap_12 = \<lparr>cells = (\<lambda>a. \<lparr>color = Some 0, cost = None\<rparr>), fresh = 3\<rparr>"

definition args_two_ants :: args where
  "args_two_ants = \<lparr>arg_n_colors = None, arg_n_ants = 2, arg_pre_colored = True,
     arg_pc = 4/5, arg_pn = 4/5, arg_max_iters = 10, arg_max_time = 1,
     arg_order_2 = False, arg_verbose = True\<rparr>"

text \<open>
  One colour only, so the edge stays in conflict; at most one iteration asked for. The
  clock \<open>clk_two_sweeps\<close> shows no time passing at its first four readings and ten
  seconds afterwards, against a budget of one second.
\<close>

definition args_one_color :: args where
  "args_one_color = \<lparr>arg_n_colors = Some 1, arg_n_ants = 1, arg_pre_colored = True,
     arg_pc = 4/5, arg_pn = 4/5, arg_max_iters = 1, arg_max_time = 1,
     arg_order_2 = False, arg_verbose = True\<rparr>"

definition clk_two_sweeps :: clock where
  "clk_two_sweeps = (\<lambda>k. if k < 4 then 0 else 10)"

text \<open>The path with the colours \<open>0\<close>, \<open>0\<close>, \<open>1\<close> on the nodes \<open>0\<close>, \<open>1\<close>, \<open>2\<close>.\<close>

definition heap_mixed :: heap where
  "heap_mixed = \<lparr>cells = (\<lambda>a. \<lparr>color = Some (if a = 2 then 1 else 0), cost = None\<rparr>),
                 fresh = 3\<rparr>"

text \<open>No ant; and no colour to draw from when the colouring is to be drawn.\<close>

definition args_no_ants :: args where
  "args_no_ants = \<lparr>arg_n_colors = Some 2, arg_n_ants = 0, arg_pre_colored = True,
     arg_pc = 4/5, arg_pn = 4/5, arg_max_iters = 1, arg_max_time = 1,
     arg_order_2 = False, arg_verbose = True\<rparr>"

definition args_no_palette :: args where
  "args_no_palette = \<lparr>arg_n_colors = Some 0, arg_n_ants = 1, arg_pre_colored = False,
     arg_pc = 4/5, arg_pn = 4/5, arg_max_iters = 1, arg_max_time = 1,
     arg_order_2 = False, arg_verbose = True\<rparr>"

text \<open>The defaults of the constructor but for one ant: two colours on the single edge.\<close>

definition args_two_colors :: args where
  "args_two_colors = \<lparr>arg_n_colors = None, arg_n_ants = 1, arg_pre_colored = True,
     arg_pc = 4/5, arg_pn = 4/5, arg_max_iters = 10, arg_max_time = 1,
     arg_order_2 = False, arg_verbose = True\<rparr>"

section \<open>Properties\<close>

subsection \<open>The scans\<close>
lemma argmax_scan_spec:
  assumes "ys = pre @ xs" "bi < length pre" "ys ! bi = bv"
    "\<forall>j < length pre. ys ! j \<le> bv" "\<forall>j < bi. ys ! j < bv"
  shows "argmax_scan bi bv (length pre) xs < length ys \<and>
         (\<forall>j < length ys. ys ! j \<le> ys ! argmax_scan bi bv (length pre) xs) \<and>
         (\<forall>j < argmax_scan bi bv (length pre) xs. ys ! j < ys ! argmax_scan bi bv (length pre) xs)"
  using assms
proof (induction xs arbitrary: pre bi bv)
  case Nil
  then show ?case by auto
next
  case (Cons x xs)
  have len: "length (pre @ [x]) = Suc (length pre)" by simp
  have ysx: "ys ! length pre = x" using Cons.prems(1) by simp
  show ?case
  proof (cases "bv < x")
    case True
    have "argmax_scan (length pre) x (length (pre @ [x])) xs < length ys \<and>
         (\<forall>j < length ys. ys ! j \<le> ys ! argmax_scan (length pre) x (length (pre @ [x])) xs) \<and>
         (\<forall>j < argmax_scan (length pre) x (length (pre @ [x])) xs. ys ! j < ys ! argmax_scan (length pre) x (length (pre @ [x])) xs)"
    proof (rule Cons.IH)
      show "ys = (pre @ [x]) @ xs" using Cons.prems(1) by simp
      show "length pre < length (pre @ [x])" by simp
      show "ys ! length pre = x" by (rule ysx)
      show "\<forall>j<length (pre @ [x]). ys ! j \<le> x"
        using Cons.prems(4) True ysx by (auto simp: less_Suc_eq)
      show "\<forall>j<length pre. ys ! j < x"
        using Cons.prems(4) True by (meson le_less_trans)
    qed
    then show ?thesis using True by simp
  next
    case False
    have "argmax_scan bi bv (length (pre @ [x])) xs < length ys \<and>
         (\<forall>j < length ys. ys ! j \<le> ys ! argmax_scan bi bv (length (pre @ [x])) xs) \<and>
         (\<forall>j < argmax_scan bi bv (length (pre @ [x])) xs. ys ! j < ys ! argmax_scan bi bv (length (pre @ [x])) xs)"
    proof (rule Cons.IH)
      show "ys = (pre @ [x]) @ xs" using Cons.prems(1) by simp
      show "bi < length (pre @ [x])" using Cons.prems(2) by simp
      show "ys ! bi = bv" by (rule Cons.prems(3))
      show "\<forall>j<length (pre @ [x]). ys ! j \<le> bv"
        using Cons.prems(4) False ysx by (auto simp: less_Suc_eq)
      show "\<forall>j<bi. ys ! j < bv" by (rule Cons.prems(5))
    qed
    then show ?thesis using False by simp
  qed
qed

lemma argmax_first_max:
  assumes "ms \<noteq> []"
  shows "\<exists>k < length ms. argmax ms = Inr k \<and> (\<forall>j < length ms. ms ! j \<le> ms ! k) \<and>
         (\<forall>j < k. ms ! j < ms ! k)"
proof -
  obtain x xs where ms: "ms = x # xs" using assms by (cases ms) auto
  have "argmax_scan 0 x (length [x]) xs < length ms \<and>
         (\<forall>j < length ms. ms ! j \<le> ms ! argmax_scan 0 x (length [x]) xs) \<and>
         (\<forall>j < argmax_scan 0 x (length [x]) xs. ms ! j < ms ! argmax_scan 0 x (length [x]) xs)"
    by (rule argmax_scan_spec) (auto simp: ms)
  then show ?thesis by (simp add: argmax_def ms)
qed

lemma collect_map:
  "\<forall>x \<in> set xs. f x = Inr (v x) \<Longrightarrow> collect f xs = Inr (map v xs)"
  by (induction xs) auto

text \<open>
  Claim C7. For a node \<open>n\<close> of the graph with at least one neighbour, where the metric
  (the cached cost, or \<open>local_potential\<close> in order-2 mode) of each neighbour is \<open>v\<close>,
  \<open>worst_adjacent_node\<close> returns the neighbour at the first position of the neighbour
  list at which \<open>v\<close> is maximal: no neighbour has a larger value, and every neighbour
  before it has a strictly smaller one.
\<close>

theorem worst_adjacent_node_first_max:
  assumes "n \<in> set (nodes gr)" and "adj gr n \<noteq> []"
    and "\<forall>nei \<in> set (adj gr n).
           (if o2 then local_potential h gr nei else read_cost h gr nei) = Inr (v nei)"
  shows "\<exists>k < length (adj gr n).
           worst_adjacent_node h gr n o2 = Inr (adj gr n ! k) \<and>
           (\<forall>j < length (adj gr n). v (adj gr n ! j) \<le> v (adj gr n ! k)) \<and>
           (\<forall>j < k. v (adj gr n ! j) < v (adj gr n ! k))"
proof -
  let ?m = "if o2 then local_potential h gr else read_cost h gr"
  have "\<forall>nei \<in> set (adj gr n). ?m nei = Inr (v nei)" using assms(3) by auto
  then have c: "collect ?m (adj gr n) = Inr (map v (adj gr n))" by (rule collect_map)
  have ne: "map v (adj gr n) \<noteq> []" using assms(2) by simp
  from argmax_first_max[OF ne] obtain k where k: "k < length (adj gr n)"
    "argmax (map v (adj gr n)) = Inr k"
    "\<forall>j < length (adj gr n). map v (adj gr n) ! j \<le> map v (adj gr n) ! k"
    "\<forall>j < k. map v (adj gr n) ! j < map v (adj gr n) ! k" by auto
  have "worst_adjacent_node h gr n o2 = Inr (adj gr n ! k)"
    using assms(1,2) c k(2) by (simp add: worst_adjacent_node_def)
  moreover have "\<forall>j < length (adj gr n). v (adj gr n ! j) \<le> v (adj gr n ! k)"
    using k(1,3) by auto
  moreover have "\<forall>j < k. v (adj gr n ! j) < v (adj gr n ! k)"
    using k(1,4) by auto
  ultimately show ?thesis using k(1) by blast
qed

theorem worst_adjacent_node_first_max_witness:
  "(1::nat) \<in> set (nodes g_path) \<and> adj g_path 1 \<noteq> [] \<and>
   adj g_path 1 = [0, 2] \<and>
   read_cost heap_path g_path 0 = Inr 1 \<and> read_cost heap_path g_path 2 = Inr 1 \<and>
   worst_adjacent_node heap_path g_path 1 False = Inr 0"
proof -
  have a: "(1::nat) \<in> set (nodes g_path)" by (simp add: g_path_def)
  have b: "adj g_path 1 \<noteq> []" by (simp add: g_path_def)
  have c: "\<forall>nei \<in> set (adj g_path 1). read_cost heap_path g_path nei = Inr 1"
    by (simp add: g_path_def heap_path_def read_cost_def cost_of_def)
  have c': "\<forall>nei \<in> set (adj g_path 1).
      (if False then local_potential heap_path g_path nei else read_cost heap_path g_path nei)
        = Inr ((\<lambda>_. 1) nei)"
    using c by simp
  from worst_adjacent_node_first_max[OF a b c']
  obtain k where k: "k < length (adj g_path 1)"
    "worst_adjacent_node heap_path g_path 1 False = Inr (adj g_path 1 ! k)"
    "\<forall>j < k. (1::nat) < 1" by blast
  have "k = 0" using k(3) by (cases k) auto
  then have "worst_adjacent_node heap_path g_path 1 False = Inr 0"
    using k(2) by (simp add: g_path_def)
  moreover have "adj g_path 1 = [0, 2]" by (simp add: g_path_def)
  moreover have "read_cost heap_path g_path 0 = Inr 1" "read_cost heap_path g_path 2 = Inr 1"
    by (simp_all add: g_path_def heap_path_def read_cost_def cost_of_def)
  ultimately show ?thesis using a b by blast
qed

subsection \<open>Copies, colours and cached costs\<close>

lemma index_of_less: "x \<in> set xs \<Longrightarrow> index_of xs x < length xs"
  by (induction xs) (auto simp: index_of_def)

lemma nth_index_of: "x \<in> set xs \<Longrightarrow> xs ! index_of xs x = x"
  by (induction xs) (auto simp: index_of_def)

lemma copy_graph_shape:
  "nodes (fst (copy_graph gr h)) = nodes gr"
  "adj (fst (copy_graph gr h)) = adj gr"
  "fresh (snd (copy_graph gr h)) = fresh h + length (nodes gr)"
  by (simp_all add: copy_graph_def Let_def)

lemma copy_graph_old: "a < fresh h \<Longrightarrow> cells (snd (copy_graph gr h)) a = cells h a"
  by (simp add: copy_graph_def Let_def)

lemma copy_graph_new:
  assumes "n \<in> set (nodes gr)"
  shows "cells (snd (copy_graph gr h)) (node (fst (copy_graph gr h)) n) = cells h (node gr n)"
    and "fresh h \<le> node (fst (copy_graph gr h)) n"
    and "node (fst (copy_graph gr h)) n < fresh (snd (copy_graph gr h))"
proof -
  let ?as = "map (node gr) (nodes gr)"
  let ?j = "index_of ?as (node gr n)"
  have mem: "node gr n \<in> set ?as" using assms by simp
  have j: "?j < length (nodes gr)" using index_of_less[OF mem] by simp
  have "?as ! ?j = node gr n" by (rule nth_index_of[OF mem])
  then have same: "node gr (nodes gr ! ?j) = node gr n" using j by simp
  have "cells (snd (copy_graph gr h)) (node (fst (copy_graph gr h)) n)
      = cells h (node gr (nodes gr ! ?j))"
    using j by (simp add: copy_graph_def Let_def)
  then show "cells (snd (copy_graph gr h)) (node (fst (copy_graph gr h)) n) = cells h (node gr n)"
    by (simp only: same)
  show "fresh h \<le> node (fst (copy_graph gr h)) n"
    by (simp add: copy_graph_def Let_def)
  show "node (fst (copy_graph gr h)) n < fresh (snd (copy_graph gr h))"
    using j by (simp add: copy_graph_def Let_def)
qed

lemma copy_graph_distinct:
  assumes "distinct (map (node gr) (nodes gr))"
  shows "distinct (map (node (fst (copy_graph gr h))) (nodes gr))"
proof -
  let ?as = "map (node gr) (nodes gr)"
  have d: "distinct (nodes gr)" and inj: "inj_on (node gr) (set (nodes gr))"
    using assms by (auto simp: distinct_map)
  have "inj_on (node (fst (copy_graph gr h))) (set (nodes gr))"
  proof (rule inj_onI)
    fix x y assume x: "x \<in> set (nodes gr)" and y: "y \<in> set (nodes gr)"
      and e: "node (fst (copy_graph gr h)) x = node (fst (copy_graph gr h)) y"
    have "index_of ?as (node gr x) = index_of ?as (node gr y)"
      using e by (simp add: copy_graph_def Let_def)
    moreover have "?as ! index_of ?as (node gr x) = node gr x"
      using x by (intro nth_index_of) simp
    moreover have "?as ! index_of ?as (node gr y) = node gr y"
      using y by (intro nth_index_of) simp
    ultimately have "node gr x = node gr y" by metis
    then show "x = y" using inj x y by (auto dest: inj_onD)
  qed
  then show ?thesis using d by (simp add: distinct_map)
qed

lemma copy_graph_color_of:
  "n \<in> set (nodes gr) \<Longrightarrow>
   color_of (snd (copy_graph gr h)) (fst (copy_graph gr h)) n = color_of h gr n"
  by (simp add: color_of_def copy_graph_new(1))

lemma copy_graph_cost_of:
  "n \<in> set (nodes gr) \<Longrightarrow>
   cost_of (snd (copy_graph gr h)) (fst (copy_graph gr h)) n = cost_of h gr n"
  by (simp add: cost_of_def copy_graph_new(1))

lemma copy_graph_own_dicts:
  assumes "distinct (map (node gr) (nodes gr))"
  shows "own_dicts (snd (copy_graph gr h)) (fst (copy_graph gr h))"
  using copy_graph_distinct[OF assms] copy_graph_new(3)[of _ gr h]
  by (simp add: own_dicts_def copy_graph_shape)

text \<open>The conflict level of a node reads the colours of the node and its neighbours only.\<close>

lemma sum_all_cong:
  "(\<And>x. x \<in> set xs \<Longrightarrow> f x = g x) \<Longrightarrow> sum_all f xs = sum_all g xs"
  by (induction xs) (auto split: sum.splits)

lemma conflict_level_cong:
  assumes "\<And>m. m \<in> set (n # adj gr n) \<Longrightarrow> color_of h' gr m = color_of h gr m"
  shows "conflict_level h' gr n = conflict_level h gr n"
proof -
  have "filter (\<lambda>nei. color_of h' gr nei = Some c) (adj gr n)
      = filter (\<lambda>nei. color_of h gr nei = Some c) (adj gr n)" for c
    by (rule filter_cong) (auto simp: assms)
  moreover have "color_of h' gr n = color_of h gr n" by (simp add: assms)
  moreover have "(\<exists>nei \<in> set (adj gr n). color_of h' gr nei = None)
     = (\<exists>nei \<in> set (adj gr n). color_of h gr nei = None)" by (auto simp: assms)
  ultimately show ?thesis
    by (simp add: conflict_level_def cong: option.case_cong if_cong)
qed

lemma conflict_level_conflicts:
  assumes "n \<in> set (nodes gr)" "\<And>m. m \<in> set (n # adj gr n) \<Longrightarrow> color_of h gr m \<noteq> None"
  shows "conflict_level h gr n = Inr (conflicts h gr n)"
proof -
  obtain c where c: "color_of h gr n = Some c" using assms(2)[of n] by auto
  have "\<not> (\<exists>nei \<in> set (adj gr n). color_of h gr nei = None)" using assms(2) by auto
  then show ?thesis using assms(1) c by (auto simp: conflict_level_def conflicts_def)
qed

lemma set_cost_simps [simp]:
  "fresh (set_cost h a c) = fresh h"
  "color (cells (set_cost h a c) b) = color (cells h b)"
  "b \<noteq> a \<Longrightarrow> cells (set_cost h a c) b = cells h b"
  "cost (cells (set_cost h a c) a) = Some c"
  by (simp_all add: set_cost_def)

lemma set_color_simps [simp]:
  "fresh (set_color h a c) = fresh h"
  "cost (cells (set_color h a c) b) = cost (cells h b)"
  "b \<noteq> a \<Longrightarrow> cells (set_color h a c) b = cells h b"
  "color (cells (set_color h a c) a) = Some c"
  by (simp_all add: set_color_def)

lemma set_color_twice [simp]: "set_color (set_color h a c) a c' = set_color h a c'"
  by (simp add: set_color_def)

lemma refresh_costs_frame:
  "refresh_costs gr ns h = Inr h' \<Longrightarrow>
   fresh h' = fresh h \<and> (\<forall>a. color (cells h' a) = color (cells h a)) \<and>
   (\<forall>a. a \<notin> node gr ` set ns \<longrightarrow> cells h' a = cells h a)"
proof (induction ns arbitrary: h)
  case Nil
  then show ?case by simp
next
  case (Cons n ns)
  from Cons.prems obtain c where c: "conflict_level h gr n = Inr c"
    and r: "refresh_costs gr ns (set_cost h (node gr n) c) = Inr h'"
    by (auto split: sum.splits)
  from Cons.IH[OF r] show ?case by auto
qed

lemma refresh_costs_ok:
  assumes "\<And>n m. n \<in> set ns \<Longrightarrow> m \<in> set (n # adj gr n) \<Longrightarrow> color_of h gr m \<noteq> None"
    and "set ns \<subseteq> set (nodes gr)"
  shows "\<exists>h'. refresh_costs gr ns h = Inr h'"
  using assms
proof (induction ns arbitrary: h)
  case Nil
  then show ?case by simp
next
  case (Cons n ns)
  have cl: "conflict_level h gr n = Inr (conflicts h gr n)"
    using Cons.prems by (intro conflict_level_conflicts) auto
  let ?h1 = "set_cost h (node gr n) (conflicts h gr n)"
  have "\<exists>h'. refresh_costs gr ns ?h1 = Inr h'"
  proof (rule Cons.IH)
    fix k m assume "k \<in> set ns" "m \<in> set (k # adj gr k)"
    then have "color_of h gr m \<noteq> None" using Cons.prems(1)[of k m] by simp
    then show "color_of ?h1 gr m \<noteq> None" by (simp add: color_of_def)
  next
    show "set ns \<subseteq> set (nodes gr)" using Cons.prems(2) by simp
  qed
  then show ?case using cl by simp
qed

lemma refresh_costs_cost:
  assumes "refresh_costs gr ns h = Inr h'" "inj_on (node gr) (set (nodes gr))"
    "set ns \<subseteq> set (nodes gr)" "n \<in> set ns"
  shows "conflict_level h gr n = Inr (the (cost_of h' gr n)) \<and> cost_of h' gr n \<noteq> None"
  using assms
proof (induction ns arbitrary: h)
  case Nil
  then show ?case by simp
next
  case (Cons k ns)
  from Cons.prems(1) obtain c where c: "conflict_level h gr k = Inr c"
    and r: "refresh_costs gr ns (set_cost h (node gr k) c) = Inr h'"
    by (auto split: sum.splits)
  let ?h1 = "set_cost h (node gr k) c"
  have same: "conflict_level ?h1 gr m = conflict_level h gr m" for m
    by (rule conflict_level_cong) (simp add: color_of_def)
  show ?case
  proof (cases "n \<in> set ns")
    case True
    have "conflict_level ?h1 gr n = Inr (the (cost_of h' gr n)) \<and> cost_of h' gr n \<noteq> None"
      using r Cons.prems(2,3) True by (intro Cons.IH) auto
    then show ?thesis by (simp add: same)
  next
    case False
    then have nk: "n = k" using Cons.prems(4) by simp
    have "node gr k \<notin> node gr ` set ns"
    proof
      assume "node gr k \<in> node gr ` set ns"
      then obtain m where m: "m \<in> set ns" "node gr m = node gr k" by auto
      then have "m = k" using Cons.prems(2,3) by (auto dest: inj_onD)
      then show False using m(1) False nk by simp
    qed
    then have "cells h' (node gr k) = cells ?h1 (node gr k)"
      using refresh_costs_frame[OF r] by blast
    then have "cost_of h' gr k = Some c" by (simp add: cost_of_def)
    then show ?thesis using c nk by simp
  qed
qed

subsection \<open>The constructor\<close>

lemma sum_all_map:
  "\<forall>x \<in> set xs. f x = Inr (v x) \<Longrightarrow> sum_all f xs = Inr (sum_list (map v xs))"
  by (induction xs) auto

lemma init_solver_cases:
  assumes "init_solver st = Inr st'"
  obtains as r' h1 c where
    "np_choice_norepl (arange (n_ants st)) (n_ants st) (rng st) = Inr (as, r')"
    "refresh_costs (self_g st) (nodes (self_g st)) (heap st) = Inr h1"
    "total_cost (snd (copy_graph (self_g st) h1)) (self_g st) = Inr c"
    "st' = st\<lparr>ants := as, rng := r', heap := snd (copy_graph (self_g st) h1),
              best := fst (copy_graph (self_g st) h1),
              cost_best := c, curr_cost := c, first_best := c\<rparr>"
  using assms unfolding init_solver_def
  by (auto simp: Let_def case_prod_beta split: sum.splits prod.splits)

lemma np_choice_norepl_arange:
  "1 \<le> n \<Longrightarrow> np_choice_norepl (arange n) n r = Inr (sample_norepl (nat n) (arange n) r)"
  by (simp add: np_choice_norepl_def arange_def)

lemma init_solver_succeeds:
  assumes own: "own_dicts (heap st) (self_g st)" and cl: "closed_adj (self_g st)"
    and col: "colored (heap st) (self_g st)" and n: "1 \<le> n_ants st"
  shows "\<exists>st'. init_solver st = Inr st'"
proof -
  let ?g = "self_g st"
  have "\<exists>h1. refresh_costs ?g (nodes ?g) (heap st) = Inr h1"
  proof (rule refresh_costs_ok)
    fix k m assume "k \<in> set (nodes ?g)" "m \<in> set (k # adj ?g k)"
    then have "m \<in> set (nodes ?g)" using cl by (auto simp: closed_adj_def)
    then show "color_of (heap st) ?g m \<noteq> None" using col by (simp add: colored_def)
  qed simp
  then obtain h1 where h1: "refresh_costs ?g (nodes ?g) (heap st) = Inr h1" ..
  have inj: "inj_on (node ?g) (set (nodes ?g))" using own by (simp add: own_dicts_def distinct_map)
  have fr: "fresh h1 = fresh (heap st)" using refresh_costs_frame[OF h1] by simp
  let ?h2 = "snd (copy_graph ?g h1)"
  have "\<forall>k \<in> set (nodes ?g). read_cost ?h2 ?g k = Inr (the (cost_of h1 ?g k))"
  proof
    fix k assume k: "k \<in> set (nodes ?g)"
    have "node ?g k < fresh h1" using own k fr by (simp add: own_dicts_def)
    then have "cost_of ?h2 ?g k = cost_of h1 ?g k"
      by (simp add: cost_of_def copy_graph_old)
    moreover have "cost_of h1 ?g k \<noteq> None"
      using refresh_costs_cost[OF h1 inj _ k] by simp
    ultimately show "read_cost ?h2 ?g k = Inr (the (cost_of h1 ?g k))"
      by (auto simp: read_cost_def)
  qed
  then have "total_cost ?h2 ?g = Inr (sum_list (map (\<lambda>k. the (cost_of h1 ?g k)) (nodes ?g)))"
    unfolding total_cost_def by (rule sum_all_map)
  then show ?thesis
    using h1 np_choice_norepl_arange[OF n]
    by (simp add: init_solver_def Let_def case_prod_beta split: prod.splits)
qed

lemma init_solver_fields:
  assumes "init_solver st = Inr st'"
  shows "pc st' = pc st" "pn st' = pn st" "n_colors st' = n_colors st" "self_g st' = self_g st"
    "n_ants st' = n_ants st" "max_iters st' = max_iters st"
  using assms by (auto elim!: init_solver_cases)

lemma closed_adj_copy: "closed_adj gr \<Longrightarrow> closed_adj (fst (copy_graph gr h))"
  by (simp add: closed_adj_def copy_graph_shape)

lemma colored_copy: "colored h gr \<Longrightarrow> colored (snd (copy_graph gr h)) (fst (copy_graph gr h))"
  by (simp add: colored_def copy_graph_shape copy_graph_color_of)

subsection \<open>The random initial colouring\<close>

lemma np_choice_mem:
  "xs \<noteq> [] \<Longrightarrow> \<exists>x r'. np_choice xs r = Inr (x, r') \<and> x \<in> set xs"
  by (simp add: np_choice_def Let_def case_prod_beta)

lemma color_nodes_range:
  assumes "colors \<noteq> []"
  shows "\<exists>h' r'. color_nodes colors ns gr h r = Inr (h', r') \<and> fresh h' = fresh h \<and>
           (\<forall>a. a \<notin> node gr ` set ns \<longrightarrow> cells h' a = cells h a) \<and>
           (\<forall>a \<in> node gr ` set ns. \<exists>c \<in> set colors. color (cells h' a) = Some (int c))"
proof (induction ns arbitrary: h r)
  case Nil
  then show ?case by simp
next
  case (Cons n ns)
  obtain c r1 where c: "np_choice colors r = Inr (c, r1)" "c \<in> set colors"
    using np_choice_mem[OF assms] by blast
  let ?h1 = "set_color h (node gr n) (int c)"
  from Cons.IH[of ?h1 r1] obtain h' r' where
    run: "color_nodes colors ns gr ?h1 r1 = Inr (h', r')" and fr: "fresh h' = fresh ?h1"
    and old: "\<forall>a. a \<notin> node gr ` set ns \<longrightarrow> cells h' a = cells ?h1 a"
    and new: "\<forall>a \<in> node gr ` set ns. \<exists>c \<in> set colors. color (cells h' a) = Some (int c)"
    by blast
  have 1: "color_nodes colors (n # ns) gr h r = Inr (h', r')" using c(1) run by simp
  have 2: "fresh h' = fresh h" using fr by simp
  have 3: "\<forall>a. a \<notin> node gr ` set (n # ns) \<longrightarrow> cells h' a = cells h a"
    using old by auto
  have 4: "\<forall>a \<in> node gr ` set (n # ns). \<exists>c \<in> set colors. color (cells h' a) = Some (int c)"
  proof
    fix a assume a: "a \<in> node gr ` set (n # ns)"
    show "\<exists>c \<in> set colors. color (cells h' a) = Some (int c)"
    proof (cases "a \<in> node gr ` set ns")
      case True
      then show ?thesis using new by blast
    next
      case False
      then have "a = node gr n" using a by auto
      moreover have "cells h' a = cells ?h1 a" using old False by blast
      ultimately show ?thesis using c(2) by auto
    qed
  qed
  show ?case using 1 2 3 4 by blast
qed

lemma max_c_pos: "max_c gr = Inr mc \<Longrightarrow> 1 \<le> mc"
  by (auto simp: max_c_def split: if_splits)

lemma random_node_coloring_capped:
  assumes "max_c gr = Inr mc" and "mc < n"
  shows "\<exists>h' r'. random_node_coloring gr (Some n) h r = Inr (h', r') \<and> fresh h' = fresh h \<and>
           (\<forall>m \<in> set (nodes gr). \<exists>c. color_of h' gr m = Some c \<and> 0 \<le> c \<and> c < mc)"
proof -
  have ne: "arange mc \<noteq> []" using max_c_pos[OF assms(1)] by (simp add: arange_def)
  from color_nodes_range[OF ne, of "nodes gr" gr h r] obtain h' r' where
    run: "color_nodes (arange mc) (nodes gr) gr h r = Inr (h', r')" and fr: "fresh h' = fresh h"
    and new: "\<forall>a \<in> node gr ` set (nodes gr). \<exists>c \<in> set (arange mc). color (cells h' a) = Some (int c)"
    by blast
  have "random_node_coloring gr (Some n) h r = Inr (h', r')"
    using assms run by (simp add: random_node_coloring_def)
  moreover have "\<forall>m \<in> set (nodes gr). \<exists>c. color_of h' gr m = Some c \<and> 0 \<le> c \<and> c < mc"
  proof
    fix m assume "m \<in> set (nodes gr)"
    then obtain c where "c \<in> set (arange mc)" "color (cells h' (node gr m)) = Some (int c)"
      using new by blast
    then show "\<exists>c. color_of h' gr m = Some c \<and> 0 \<le> c \<and> c < mc"
      by (auto simp: color_of_def arange_def)
  qed
  ultimately show ?thesis using fr by blast
qed

lemma max_c_copy: "max_c (fst (copy_graph gr h)) = max_c gr"
  by (simp add: max_c_def degree_def copy_graph_shape cong: map_cong)

lemma init_solver_colors:
  assumes "init_solver st = Inr st'" and "m \<in> set (nodes (self_g st))"
    and "node (self_g st) m < fresh (heap st)"
  shows "color_of (heap st') (self_g st') m = color_of (heap st) (self_g st) m"
proof -
  from assms(1) obtain as r' h1 c where
    h1: "refresh_costs (self_g st) (nodes (self_g st)) (heap st) = Inr h1"
    and st': "st' = st\<lparr>ants := as, rng := r', heap := snd (copy_graph (self_g st) h1),
              best := fst (copy_graph (self_g st) h1),
              cost_best := c, curr_cost := c, first_best := c\<rparr>"
    by (rule init_solver_cases)
  have fr: "fresh h1 = fresh (heap st)" and col: "\<forall>a. color (cells h1 a) = color (cells (heap st) a)"
    using refresh_costs_frame[OF h1] by auto
  have "cells (heap st') (node (self_g st) m) = cells h1 (node (self_g st) m)"
    using assms(3) fr by (simp add: st' copy_graph_old)
  then show ?thesis using col by (simp add: color_of_def st')
qed

lemma AntSolver_shape:
  assumes "AntSolver a g0 h0 r0 clk = Inr st"
  shows "nodes (self_g st) = nodes g0" and "adj (self_g st) = adj g0"
  using assms init_solver_fields(4)
  by (fastforce simp: AntSolver_def Let_def case_prod_beta copy_graph_shape
      split: sum.splits if_splits)+

text \<open>
  Claim C10. When the number of colours asked for is above \<open>max_c\<close>, the largest degree
  plus one, \<open>random_node_coloring\<close> gives every node a colour in \<open>[0, max_c)\<close>; a solver
  built with \<open>pre_colored = False\<close> and such an \<open>n_colors\<close> starts from a colouring with
  colours below \<open>max_c\<close> only, while its attribute \<open>n_colors\<close> is the number asked for.
\<close>

theorem random_node_coloring_caps_palette:
  assumes "max_c g0 = Inr mc" and "mc < n"
  shows "(\<exists>h' r'. random_node_coloring g0 (Some n) h0 r0 = Inr (h', r') \<and>
            (\<forall>m \<in> set (nodes g0). \<exists>c. color_of h' g0 m = Some c \<and> 0 \<le> c \<and> c < mc)) \<and>
         (arg_pre_colored a = False \<and> arg_n_colors a = Some n \<and>
          AntSolver a g0 h0 r0 clk = Inr st \<longrightarrow>
            n_colors st = n \<and>
            (\<forall>m \<in> set (nodes (self_g st)).
               \<exists>c. color_of (heap st) (self_g st) m = Some c \<and> 0 \<le> c \<and> c < mc))"
proof
  show "\<exists>h' r'. random_node_coloring g0 (Some n) h0 r0 = Inr (h', r') \<and>
            (\<forall>m \<in> set (nodes g0). \<exists>c. color_of h' g0 m = Some c \<and> 0 \<le> c \<and> c < mc)"
    using random_node_coloring_capped[OF assms, of h0 r0] by blast
next
  show "arg_pre_colored a = False \<and> arg_n_colors a = Some n \<and>
          AntSolver a g0 h0 r0 clk = Inr st \<longrightarrow>
            n_colors st = n \<and>
            (\<forall>m \<in> set (nodes (self_g st)).
               \<exists>c. color_of (heap st) (self_g st) m = Some c \<and> 0 \<le> c \<and> c < mc)"
  proof
    assume A: "arg_pre_colored a = False \<and> arg_n_colors a = Some n \<and>
          AntSolver a g0 h0 r0 clk = Inr st"
    let ?g1 = "fst (copy_graph g0 h0)" and ?h1 = "snd (copy_graph g0 h0)"
    have mc1: "max_c ?g1 = Inr mc" using assms(1) by (simp add: max_c_copy)
    from random_node_coloring_capped[OF mc1 assms(2), of ?h1 r0] obtain h2 r1 where
      rnc: "random_node_coloring ?g1 (Some n) ?h1 r0 = Inr (h2, r1)"
      and cols: "\<forall>m \<in> set (nodes ?g1). \<exists>c. color_of h2 ?g1 m = Some c \<and> 0 \<le> c \<and> c < mc"
      by blast
    let ?g2 = "fst (copy_graph ?g1 h2)" and ?h3 = "snd (copy_graph ?g1 h2)"
    let ?st = "\<lparr>order_2 = arg_order_2 a, verbose = arg_verbose a,
                     max_time = arg_max_time a, n_colors = n,
                     max_iters = arg_max_iters a,
                     n_ants = min (arg_n_ants a) (int (length (nodes g0))),
                     pc = arg_pc a, pn = arg_pn a, self_g = ?g2, self_i = 0,
                     ants = [], best = ?g1, cost_best = 0, curr_cost = 0, first_best = 0,
                     heap = ?h3, rng = r1, clock = clk\<rparr>"
    have eq: "AntSolver a g0 h0 r0 clk = init_solver ?st"
      using assms(1) A rnc by (simp add: AntSolver_def Let_def case_prod_beta)
    then have st: "init_solver ?st = Inr st" using A by simp
    have g: "self_g st = ?g2" and nc: "n_colors st = n"
      using init_solver_fields[OF st] by simp_all
    have "\<forall>m \<in> set (nodes (self_g st)).
               \<exists>c. color_of (heap st) (self_g st) m = Some c \<and> 0 \<le> c \<and> c < mc"
    proof
      fix m assume "m \<in> set (nodes (self_g st))"
      then have m: "m \<in> set (nodes ?g1)" by (simp add: g copy_graph_shape)
      then have m2: "m \<in> set (nodes (self_g ?st))" by (simp add: copy_graph_shape)
      have lt: "node (self_g ?st) m < fresh (heap ?st)"
        using copy_graph_new(3)[OF m, of h2] by simp
      have "color_of (heap st) (self_g st) m = color_of (heap ?st) (self_g ?st) m"
        by (rule init_solver_colors[OF st m2 lt])
      also have "\<dots> = color_of h2 ?g1 m" using copy_graph_color_of[OF m, of h2] by simp
      finally show "\<exists>c. color_of (heap st) (self_g st) m = Some c \<and> 0 \<le> c \<and> c < mc"
        using cols m by auto
    qed
    then show "n_colors st = n \<and>
            (\<forall>m \<in> set (nodes (self_g st)).
               \<exists>c. color_of (heap st) (self_g st) m = Some c \<and> 0 \<le> c \<and> c < mc)"
      using nc by blast
  qed
qed

theorem random_node_coloring_caps_palette_witness:
  "max_c g_edge = Inr 2 \<and> (2::int) < 5 \<and> arg_pre_colored args_wide = False \<and>
   arg_n_colors args_wide = Some 5 \<and>
   (\<exists>st. AntSolver args_wide g_edge heap_edge rng_zero (\<lambda>k. 0) = Inr st \<and> n_colors st = 5 \<and>
      (\<exists>c. color_of (heap st) (self_g st) 0 = Some c \<and> 0 \<le> c \<and> c < 2) \<and>
      (\<exists>c. color_of (heap st) (self_g st) 1 = Some c \<and> 0 \<le> c \<and> c < 2))"
proof -
  have mc: "max_c g_edge = Inr 2" by (simp add: max_c_def degree_def g_edge_def)
  have lt: "(2::int) < 5" by simp
  have p: "arg_pre_colored args_wide = False" and n: "arg_n_colors args_wide = Some 5"
    by (simp_all add: args_wide_def)
  have "\<exists>st. AntSolver args_wide g_edge heap_edge rng_zero (\<lambda>k. 0) = Inr st"
    by (simp add: args_wide_def g_edge_def heap_edge_def rng_zero_def AntSolver_def
      max_c_def degree_def copy_graph_def index_of_def init_solver_def np_choice_norepl_def
      arange_def rng_next_def conflict_level_def color_of_def cost_of_def set_cost_def
      set_color_def total_cost_def read_cost_def random_node_coloring_def np_choice_def Let_def)
  then obtain st where st: "AntSolver args_wide g_edge heap_edge rng_zero (\<lambda>k. 0) = Inr st" ..
  have ns: "nodes (self_g st) = [0, 1]" using AntSolver_shape(1)[OF st] by (simp add: g_edge_def)
  from random_node_coloring_caps_palette[OF mc lt, of heap_edge rng_zero args_wide "\<lambda>k. 0" st]
  have "n_colors st = 5 \<and> (\<forall>m \<in> set (nodes (self_g st)).
          \<exists>c. color_of (heap st) (self_g st) m = Some c \<and> 0 \<le> c \<and> c < 2)"
    using p n st by blast
  then show ?thesis using mc p n st ns by simp
qed

subsection \<open>What the constructor checks\<close>

lemma init_solver_no_ants: "n_ants st < 1 \<Longrightarrow> init_solver st = Inl ValueError"
  by (simp add: init_solver_def np_choice_norepl_def arange_def)

lemma color_nodes_error: "color_nodes colors ns gr h r = Inl e \<Longrightarrow> e = ValueError"
proof (induction ns arbitrary: h r)
  case Nil
  then show ?case by simp
next
  case (Cons n ns)
  show ?case
  proof (cases "colors = []")
    case True
    then show ?thesis using Cons.prems by (simp add: np_choice_def)
  next
    case False
    then obtain c r1 where "np_choice colors r = Inr (c, r1)"
      using np_choice_mem by blast
    then show ?thesis using Cons by simp
  qed
qed

lemma random_node_coloring_error:
  "nodes gr \<noteq> [] \<Longrightarrow> random_node_coloring gr n h r = Inl e \<Longrightarrow> e = ValueError"
  by (auto simp: random_node_coloring_def max_c_def Let_def dest: color_nodes_error)

lemma random_node_coloring_no_palette:
  assumes "nodes gr \<noteq> []" and "k < 1"
  shows "random_node_coloring gr (Some k) h r = Inl ValueError"
proof -
  obtain mc where mc: "max_c gr = Inr mc" using assms(1) by (simp add: max_c_def)
  have "\<not> mc < k" using max_c_pos[OF mc] assms(2) by simp
  moreover have "arange k = []" using assms(2) by (simp add: arange_def)
  moreover obtain n ns where "nodes gr = n # ns" using assms(1) by (cases "nodes gr") auto
  ultimately show ?thesis using mc by (simp add: random_node_coloring_def np_choice_def)
qed

lemma random_node_coloring_colors:
  assumes "nodes gr \<noteq> []" and "1 \<le> k"
  shows "\<exists>h' r'. random_node_coloring gr (Some k) h r = Inr (h', r') \<and> colored h' gr"
proof -
  obtain mc where mc: "max_c gr = Inr mc" using assms(1) by (simp add: max_c_def)
  let ?n = "if mc < k then mc else k"
  have "1 \<le> ?n" using max_c_pos[OF mc] assms(2) by simp
  then have ne: "arange ?n \<noteq> []" by (simp add: arange_def)
  from color_nodes_range[OF ne, of "nodes gr" gr h r] obtain h' r' where
    run: "color_nodes (arange ?n) (nodes gr) gr h r = Inr (h', r')"
    and new: "\<forall>a \<in> node gr ` set (nodes gr). \<exists>c \<in> set (arange ?n). color (cells h' a) = Some (int c)"
    by blast
  have "random_node_coloring gr (Some k) h r = Inr (h', r')"
    using mc run by (simp add: random_node_coloring_def)
  moreover have "colored h' gr" unfolding colored_def color_of_def using new by fastforce
  ultimately show ?thesis by blast
qed

lemma AntSolver_unfold:
  assumes "max_c g0 = Inr mc"
  shows "AntSolver a g0 h0 r clk =
           (if arg_pre_colored a
            then init_solver
                   \<lparr>order_2 = arg_order_2 a, verbose = arg_verbose a,
                     max_time = arg_max_time a,
                     n_colors = (case arg_n_colors a of None \<Rightarrow> mc | Some k \<Rightarrow> k),
                     max_iters = arg_max_iters a,
                     n_ants = min (arg_n_ants a) (int (length (nodes g0))),
                     pc = arg_pc a, pn = arg_pn a, self_g = fst (copy_graph g0 h0), self_i = 0,
                     ants = [], best = fst (copy_graph g0 h0), cost_best = 0, curr_cost = 0,
                     first_best = 0, heap = snd (copy_graph g0 h0), rng = r, clock = clk\<rparr>
            else (case random_node_coloring (fst (copy_graph g0 h0))
                         (Some (case arg_n_colors a of None \<Rightarrow> mc | Some k \<Rightarrow> k))
                         (snd (copy_graph g0 h0)) r of
                    Inl e \<Rightarrow> Inl e
                  | Inr (h2, r1) \<Rightarrow>
                      init_solver
                        (\<lparr>order_2 = arg_order_2 a, verbose = arg_verbose a,
                          max_time = arg_max_time a,
                          n_colors = (case arg_n_colors a of None \<Rightarrow> mc | Some k \<Rightarrow> k),
                          max_iters = arg_max_iters a,
                          n_ants = min (arg_n_ants a) (int (length (nodes g0))),
                          pc = arg_pc a, pn = arg_pn a, self_g = fst (copy_graph g0 h0),
                          self_i = 0, ants = [], best = fst (copy_graph g0 h0), cost_best = 0,
                          curr_cost = 0, first_best = 0, heap = snd (copy_graph g0 h0),
                          rng = r, clock = clk\<rparr>
                         \<lparr>self_g := fst (copy_graph (fst (copy_graph g0 h0)) h2),
                          heap := snd (copy_graph (fst (copy_graph g0 h0)) h2), rng := r1\<rparr>)))"
  using assms unfolding AntSolver_def
  by (simp add: Let_def case_prod_beta split: sum.splits)

text \<open>
  Claim C2, as amended. The constructor checks none of its arguments and has no error
  of its own. On a graph with at least one node it fails, with the \<open>ValueError\<close> of the
  numpy call it makes, when \<open>n_ants < 1\<close>, and when \<open>pre_colored = False\<close> and
  \<open>n_colors < 1\<close>. Values of \<open>pc\<close> and \<open>pn\<close> outside \<open>(0, 1)\<close>, and \<open>n_colors < 1\<close> with
  \<open>pre_colored = True\<close>, do not make it fail: on a networkx graph (coloured, when
  \<open>pre_colored = True\<close>) with \<open>n_ants \<ge> 1\<close> and, when \<open>pre_colored = False\<close>, with
  \<open>n_colors \<ge> 1\<close> or not given, the construction returns a solver that holds \<open>pc\<close>,
  \<open>pn\<close> and \<open>n_colors\<close> as they were given.
\<close>

theorem construction_unchecked:
  assumes ne: "nodes g0 \<noteq> []"
  shows "(arg_n_ants a < 1 \<longrightarrow> AntSolver a g0 h0 r clk = Inl ValueError) \<and>
         (\<not> arg_pre_colored a \<and> (\<exists>k. arg_n_colors a = Some k \<and> k < 1) \<longrightarrow>
            AntSolver a g0 h0 r clk = Inl ValueError) \<and>
         (nx_graph g0 \<and> (arg_pre_colored a \<longrightarrow> colored h0 g0) \<and> 1 \<le> arg_n_ants a \<and>
          (arg_pre_colored a \<or> (\<forall>k. arg_n_colors a = Some k \<longrightarrow> 1 \<le> k)) \<longrightarrow>
            (\<exists>st. AntSolver a g0 h0 r clk = Inr st \<and> pc st = arg_pc a \<and> pn st = arg_pn a \<and>
                  (\<forall>k. arg_n_colors a = Some k \<longrightarrow> n_colors st = k)))"
proof -
  obtain mc where mc: "max_c g0 = Inr mc" using ne by (simp add: max_c_def)
  define ncols where "ncols = (case arg_n_colors a of None \<Rightarrow> mc | Some k \<Rightarrow> k)"
  define g1 where "g1 = fst (copy_graph g0 h0)"
  define h1 where "h1 = snd (copy_graph g0 h0)"
  define st0 where "st0 = \<lparr>order_2 = arg_order_2 a, verbose = arg_verbose a,
                     max_time = arg_max_time a, n_colors = ncols,
                     max_iters = arg_max_iters a,
                     n_ants = min (arg_n_ants a) (int (length (nodes g0))),
                     pc = arg_pc a, pn = arg_pn a, self_g = g1, self_i = 0,
                     ants = [], best = g1, cost_best = 0, curr_cost = 0, first_best = 0,
                     heap = h1, rng = r, clock = clk\<rparr>"
  have unf: "AntSolver a g0 h0 r clk =
           (if arg_pre_colored a then init_solver st0
            else (case random_node_coloring g1 (Some ncols) h1 r of
                    Inl e \<Rightarrow> Inl e
                  | Inr (h2, r1) \<Rightarrow>
                      init_solver (st0\<lparr>self_g := fst (copy_graph g1 h2),
                                       heap := snd (copy_graph g1 h2), rng := r1\<rparr>)))"
    unfolding ncols_def g1_def h1_def st0_def by (rule AntSolver_unfold[OF mc])
  have ne1: "nodes g1 \<noteq> []" using ne by (simp add: g1_def copy_graph_shape)
  have fields: "n_ants st0 = min (arg_n_ants a) (int (length (nodes g0)))"
    "pc st0 = arg_pc a" "pn st0 = arg_pn a" "n_colors st0 = ncols"
    "self_g st0 = g1" "heap st0 = h1"
    by (simp_all add: st0_def)
  have part1: "AntSolver a g0 h0 r clk = Inl ValueError" if "arg_n_ants a < 1"
  proof -
    have n: "n_ants st0 < 1" using that by (simp add: fields)
    show ?thesis
    proof (cases "arg_pre_colored a")
      case True
      then show ?thesis using unf init_solver_no_ants[OF n] by simp
    next
      case False
      show ?thesis
      proof (cases "random_node_coloring g1 (Some ncols) h1 r")
        case (Inl e)
        then have "e = ValueError" using random_node_coloring_error[OF ne1] by blast
        then show ?thesis using unf False Inl by simp
      next
        case (Inr p)
        obtain h2 r1 where p: "p = (h2, r1)" by (cases p)
        have "n_ants (st0\<lparr>self_g := fst (copy_graph g1 h2),
                      heap := snd (copy_graph g1 h2), rng := r1\<rparr>) < 1"
          using n by simp
        then show ?thesis using unf False Inr p init_solver_no_ants by simp
      qed
    qed
  qed
  have part2: "AntSolver a g0 h0 r clk = Inl ValueError"
    if "\<not> arg_pre_colored a" "arg_n_colors a = Some k" "k < 1" for k
  proof -
    have "ncols = k" using that(2) by (simp add: ncols_def)
    then have "random_node_coloring g1 (Some ncols) h1 r = Inl ValueError"
      using random_node_coloring_no_palette[OF ne1 that(3)] by simp
    then show ?thesis using unf that(1) by simp
  qed
  have part3: "\<exists>st. AntSolver a g0 h0 r clk = Inr st \<and> pc st = arg_pc a \<and> pn st = arg_pn a \<and>
                  (\<forall>k. arg_n_colors a = Some k \<longrightarrow> n_colors st = k)"
    if g: "nx_graph g0" and col: "arg_pre_colored a \<longrightarrow> colored h0 g0"
      and n: "1 \<le> arg_n_ants a"
      and pal: "arg_pre_colored a \<or> (\<forall>k. arg_n_colors a = Some k \<longrightarrow> 1 \<le> k)"
  proof -
    have d: "distinct (map (node g0) (nodes g0))" and cl: "closed_adj g0"
      using g unfolding nx_graph_def by blast+
    have "0 < length (nodes g0)" using ne by simp
    then have "1 \<le> int (length (nodes g0))" by linarith
    then have n0: "1 \<le> n_ants st0" using n by (simp add: fields)
    have cl1: "closed_adj g1" unfolding g1_def using cl by (rule closed_adj_copy)
    have d1: "distinct (map (node g1) (nodes g1))"
      unfolding g1_def using copy_graph_distinct[OF d] by (simp add: copy_graph_shape)
    have "\<exists>st. AntSolver a g0 h0 r clk = Inr st \<and> pc st = pc st0 \<and> pn st = pn st0 \<and>
               n_colors st = n_colors st0"
    proof (cases "arg_pre_colored a")
      case True
      have "\<exists>st'. init_solver st0 = Inr st'"
      proof (rule init_solver_succeeds)
        show "own_dicts (heap st0) (self_g st0)"
          using copy_graph_own_dicts[OF d] by (simp add: fields g1_def h1_def)
        show "closed_adj (self_g st0)" using cl1 by (simp add: fields)
        show "colored (heap st0) (self_g st0)"
          using colored_copy col True by (simp add: fields g1_def h1_def)
        show "1 \<le> n_ants st0" by (rule n0)
      qed
      then obtain st' where st': "init_solver st0 = Inr st'" ..
      then show ?thesis using unf True init_solver_fields[OF st'] by simp
    next
      case False
      have "1 \<le> ncols"
      proof (cases "arg_n_colors a")
        case None
        then show ?thesis using max_c_pos[OF mc] by (simp add: ncols_def)
      next
        case (Some k)
        then show ?thesis using pal False by (simp add: ncols_def)
      qed
      from random_node_coloring_colors[OF ne1 this, of h1 r] obtain h2 r1 where
        rnc: "random_node_coloring g1 (Some ncols) h1 r = Inr (h2, r1)"
        and c2: "colored h2 g1" by blast
      let ?st = "st0\<lparr>self_g := fst (copy_graph g1 h2), heap := snd (copy_graph g1 h2), rng := r1\<rparr>"
      have "\<exists>st'. init_solver ?st = Inr st'"
      proof (rule init_solver_succeeds)
        show "own_dicts (heap ?st) (self_g ?st)" using copy_graph_own_dicts[OF d1] by simp
        show "closed_adj (self_g ?st)" using closed_adj_copy[OF cl1] by simp
        show "colored (heap ?st) (self_g ?st)" using colored_copy[OF c2] by simp
        show "1 \<le> n_ants ?st" using n0 by simp
      qed
      then obtain st' where st': "init_solver ?st = Inr st'" ..
      then show ?thesis using unf False rnc init_solver_fields[OF st'] by simp
    qed
    then show ?thesis by (auto simp: fields ncols_def)
  qed
  show ?thesis using part1 part2 part3 by blast
qed

theorem construction_unchecked_witness:
  "nodes g_edge \<noteq> [] \<and> nx_graph g_edge \<and> colored heap_edge g_edge \<and>
   arg_pre_colored args_unchecked \<and> 1 \<le> arg_n_ants args_unchecked \<and>
   (\<exists>st. AntSolver args_unchecked g_edge heap_edge rng_zero (\<lambda>k. 0) = Inr st \<and>
         pc st = 2 \<and> pn st = - 1 \<and> n_colors st = 0) \<and>
   arg_n_ants args_no_ants < 1 \<and>
   AntSolver args_no_ants g_edge heap_edge rng_zero (\<lambda>k. 0) = Inl ValueError \<and>
   \<not> arg_pre_colored args_no_palette \<and> arg_n_colors args_no_palette = Some 0 \<and>
   AntSolver args_no_palette g_edge heap_edge rng_zero (\<lambda>k. 0) = Inl ValueError"
proof -
  have a: "nodes g_edge \<noteq> []" by (simp add: g_edge_def)
  have b: "nx_graph g_edge" by (simp add: nx_graph_def closed_adj_def g_edge_def)
  have c: "colored heap_edge g_edge"
    by (simp add: colored_def color_of_def g_edge_def heap_edge_def)
  have d: "arg_pre_colored args_unchecked" and e: "1 \<le> arg_n_ants args_unchecked"
    by (simp_all add: args_unchecked_def)
  have f: "arg_n_ants args_no_ants < 1" by (simp add: args_no_ants_def)
  have g: "\<not> arg_pre_colored args_no_palette" "arg_n_colors args_no_palette = Some 0"
    by (simp_all add: args_no_palette_def)
  from construction_unchecked[OF a, of args_unchecked heap_edge rng_zero "\<lambda>k. 0"] b c d e
  obtain st where st: "AntSolver args_unchecked g_edge heap_edge rng_zero (\<lambda>k. 0) = Inr st"
    "pc st = arg_pc args_unchecked" "pn st = arg_pn args_unchecked"
    "\<forall>k. arg_n_colors args_unchecked = Some k \<longrightarrow> n_colors st = k" by blast
  have "pc st = 2" "pn st = - 1" "n_colors st = 0"
    using st(2,3,4) by (simp_all add: args_unchecked_def)
  then have 1: "\<exists>st. AntSolver args_unchecked g_edge heap_edge rng_zero (\<lambda>k. 0) = Inr st \<and>
         pc st = 2 \<and> pn st = - 1 \<and> n_colors st = 0" using st(1) by blast
  have 2: "AntSolver args_no_ants g_edge heap_edge rng_zero (\<lambda>k. 0) = Inl ValueError"
    using construction_unchecked[OF a, of args_no_ants heap_edge rng_zero "\<lambda>k. 0"] f by blast
  have 3: "AntSolver args_no_palette g_edge heap_edge rng_zero (\<lambda>k. 0) = Inl ValueError"
    using construction_unchecked[OF a, of args_no_palette heap_edge rng_zero "\<lambda>k. 0"] g
    by auto
  show ?thesis using a b c d e f g 1 2 3 by blast
qed

text \<open>
  Claim C2 as stated fails: with \<open>n_colors = 0\<close>, \<open>pc = 2\<close> and \<open>pn = - 1\<close> the
  construction raises nothing.
\<close>

theorem construction_no_configuration_error:
  "\<exists>st. AntSolver args_unchecked g_edge heap_edge rng_zero (\<lambda>k. 0) = Inr st \<and>
        n_colors st = 0 \<and> pc st = 2 \<and> pn st = - 1"
  by (simp add: args_unchecked_def g_edge_def heap_edge_def rng_zero_def AntSolver_def
      max_c_def degree_def copy_graph_def index_of_def init_solver_def np_choice_norepl_def
      arange_def rng_next_def conflict_level_def color_of_def cost_of_def set_cost_def
      total_cost_def read_cost_def Let_def)

subsection \<open>The initial positions of the ants\<close>

text \<open>
  Claim C3 fails on the code: the positions are drawn from \<open>arange(n_ants)\<close>, not from
  the nodes. On the graph with the nodes \<open>1\<close> and \<open>2\<close> and two ants, an ant starts at
  \<open>0\<close>, which is no node of the graph, and the first sweep of \<open>solve\<close> raises.
\<close>

theorem initial_ants_not_nodes:
  "\<exists>st. AntSolver args_two_ants g_12 heap_12 rng_zero (\<lambda>k. 0) = Inr st \<and>
        ants st = [0, 1] \<and> nodes (self_g st) = [1, 2] \<and> 0 \<notin> set (nodes (self_g st)) \<and>
        solve st = Some (Inl NetworkXError)"
  by (simp add: args_two_ants_def g_12_def heap_12_def rng_zero_def AntSolver_def
      max_c_def degree_def copy_graph_def index_of_def init_solver_def np_choice_norepl_def
      arange_def rng_next_def conflict_level_def color_of_def cost_of_def set_cost_def
      total_cost_def read_cost_def Let_def numeral_2_eq_2
      solve_def solve_loop.simps perf_counter_def sweep_def ant_step_def np_random_def
      worst_adjacent_node_def)

subsection \<open>The iteration counter\<close>

text \<open>
  Claim C1 fails on the code: no path of \<open>solve\<close> runs \<open>self.i += 1\<close>. With one colour
  the edge \<open>0 - 1\<close> stays in conflict; with \<open>max_iters = 1\<close> the run completes two
  sweeps, is stopped by the clock alone, and ends with \<open>self.i = 0\<close>.
\<close>

theorem iteration_counter_never_advanced:
  "\<exists>st st' tr. AntSolver args_one_color g_edge heap_edge rng_zero clk_two_sweeps = Inr st \<and>
      solve st = Some (Inr (st', tr)) \<and> max_iters st = 1 \<and> length tr = 2 \<and>
      self_i st' = 0 \<and> cost_best st' = 2"
  by (simp add: args_one_color_def g_edge_def heap_edge_def rng_zero_def clk_two_sweeps_def
      AntSolver_def max_c_def degree_def copy_graph_def index_of_def init_solver_def
      np_choice_norepl_def arange_def rng_next_def conflict_level_def color_of_def cost_of_def
      set_cost_def set_color_def total_cost_def read_cost_def Let_def
      solve_def solve_loop.simps perf_counter_def sweep_def ant_step_def np_random_def
      worst_adjacent_node_def argmax_def change_to_best_def subgraph_def argmin_def
      keep_best_def)

subsection \<open>The best colour\<close>

lemma argmin_scan_spec:
  assumes "ys = pre @ xs" "bi < length pre" "ys ! bi = bv"
    "\<forall>j < length pre. bv \<le> ys ! j" "\<forall>j < bi. bv < ys ! j"
  shows "argmin_scan bi bv (length pre) xs < length ys \<and>
         (\<forall>j < length ys. ys ! argmin_scan bi bv (length pre) xs \<le> ys ! j) \<and>
         (\<forall>j < argmin_scan bi bv (length pre) xs. ys ! argmin_scan bi bv (length pre) xs < ys ! j)"
  using assms
proof (induction xs arbitrary: pre bi bv)
  case Nil
  then show ?case by auto
next
  case (Cons x xs)
  have ysx: "ys ! length pre = x" using Cons.prems(1) by simp
  have split: "ys = (pre @ [x]) @ xs" using Cons.prems(1) by simp
  show ?case
  proof (cases "x < bv")
    case True
    have old: "\<forall>j<length pre. x < ys ! j"
      using Cons.prems(4) True by (meson less_le_trans)
    have "argmin_scan (length pre) x (length (pre @ [x])) xs < length ys \<and>
         (\<forall>j < length ys. ys ! argmin_scan (length pre) x (length (pre @ [x])) xs \<le> ys ! j) \<and>
         (\<forall>j < argmin_scan (length pre) x (length (pre @ [x])) xs.
             ys ! argmin_scan (length pre) x (length (pre @ [x])) xs < ys ! j)"
      using split ysx old by (intro Cons.IH) (auto simp: less_Suc_eq less_imp_le)
    then show ?thesis using True by simp
  next
    case False
    have "argmin_scan bi bv (length (pre @ [x])) xs < length ys \<and>
         (\<forall>j < length ys. ys ! argmin_scan bi bv (length (pre @ [x])) xs \<le> ys ! j) \<and>
         (\<forall>j < argmin_scan bi bv (length (pre @ [x])) xs.
             ys ! argmin_scan bi bv (length (pre @ [x])) xs < ys ! j)"
      using split ysx False Cons.prems(2,3,4,5) by (intro Cons.IH) (auto simp: less_Suc_eq)
    then show ?thesis using False by simp
  qed
qed

lemma argmin_first_min:
  assumes "ms \<noteq> []"
  shows "\<exists>k < length ms. argmin ms = Inr k \<and> (\<forall>j < length ms. ms ! k \<le> ms ! j) \<and>
         (\<forall>j < k. ms ! k < ms ! j)"
proof -
  obtain x xs where ms: "ms = x # xs" using assms by (cases ms) auto
  have "argmin_scan 0 x (length [x]) xs < length ms \<and>
         (\<forall>j < length ms. ms ! argmin_scan 0 x (length [x]) xs \<le> ms ! j) \<and>
         (\<forall>j < argmin_scan 0 x (length [x]) xs. ms ! argmin_scan 0 x (length [x]) xs < ms ! j)"
    by (rule argmin_scan_spec) (auto simp: ms)
  then show ?thesis by (simp add: argmin_def ms)
qed

lemma subgraph_around:
  "node (subgraph gr ns) = node gr"
  "ant \<in> set (nodes gr) \<Longrightarrow> ant \<in> set (nodes (subgraph gr (ant # adj gr ant)))"
  "adj (subgraph gr (ant # adj gr ant)) ant = adj gr ant"
  by (auto simp: subgraph_def)

lemma color_of_subgraph: "color_of h (subgraph gr ns) = color_of h gr"
  by (simp add: color_of_def subgraph_def fun_eq_iff)

lemma color_of_set_color:
  "color_of (set_color h a c) gr n = (if node gr n = a then Some c else color_of h gr n)"
  by (simp add: color_of_def)

lemma trial_conflict_level:
  assumes "ant \<in> set (nodes gr)"
    and "\<forall>nei \<in> set (adj gr ant). node gr nei \<noteq> node gr ant \<and> color_of h gr nei \<noteq> None"
  shows "conflict_level (set_color h (node gr ant) c) (subgraph gr (ant # adj gr ant)) ant
         = Inr (length (filter (\<lambda>nei. color_of h gr nei = Some c) (adj gr ant)))"
proof -
  let ?h1 = "set_color h (node gr ant) c" and ?gt = "subgraph gr (ant # adj gr ant)"
  have nei: "nei \<in> set (adj gr ant) \<Longrightarrow> color_of ?h1 gr nei = color_of h gr nei" for nei
    using assms(2) by (simp add: color_of_set_color)
  have f: "filter (\<lambda>nei. color_of ?h1 gr nei = Some c) (adj gr ant)
         = filter (\<lambda>nei. color_of h gr nei = Some c) (adj gr ant)"
    by (rule filter_cong) (simp_all add: nei)
  have none: "(\<exists>nei \<in> set (adj gr ant). color_of ?h1 gr nei = None) = False"
    using assms(2) nei by auto
  have self: "color_of ?h1 gr ant = Some c" by (simp add: color_of_set_color)
  show ?thesis
    using assms(1)
    by (simp add: conflict_level_def subgraph_around color_of_subgraph f none self)
qed

lemma trial_costs_conflicts:
  assumes "ant \<in> set (nodes gr)"
    and "\<forall>nei \<in> set (adj gr ant). node gr nei \<noteq> node gr ant \<and> color_of h gr nei \<noteq> None"
  shows "trial_costs h (subgraph gr (ant # adj gr ant)) ant False cs
         = Inr (map (\<lambda>c. length (filter (\<lambda>nei. color_of h gr nei = Some (int c)) (adj gr ant))) cs,
                if cs = [] then h else set_color h (node gr ant) (int (last cs)))"
  using assms(2)
proof (induction cs arbitrary: h)
  case Nil
  then show ?case by simp
next
  case (Cons c cs)
  let ?h1 = "set_color h (node gr ant) (int c)"
  let ?gt = "subgraph gr (ant # adj gr ant)"
  have same: "nei \<in> set (adj gr ant) \<Longrightarrow> color_of ?h1 gr nei = color_of h gr nei" for nei
    using Cons.prems by (simp add: color_of_set_color)
  have cl: "conflict_level ?h1 ?gt ant
      = Inr (length (filter (\<lambda>nei. color_of h gr nei = Some (int c)) (adj gr ant)))"
    using assms(1) Cons.prems by (rule trial_conflict_level)
  have pre: "\<forall>nei \<in> set (adj gr ant). node gr nei \<noteq> node gr ant \<and> color_of ?h1 gr nei \<noteq> None"
    using Cons.prems same by simp
  have cnt: "length (filter (\<lambda>nei. color_of ?h1 gr nei = Some (int d)) (adj gr ant))
           = length (filter (\<lambda>nei. color_of h gr nei = Some (int d)) (adj gr ant))" for d
    by (rule arg_cong[where f = length], rule filter_cong) (simp_all add: same)
  have ih: "trial_costs ?h1 ?gt ant False cs
         = Inr (map (\<lambda>c. length (filter (\<lambda>nei. color_of h gr nei = Some (int c)) (adj gr ant))) cs,
                if cs = [] then ?h1 else set_color h (node gr ant) (int (last cs)))"
    using Cons.IH[OF pre] by (simp add: cnt)
  show ?case using cl ih by (simp add: subgraph_around)
qed

text \<open>
  Claim C6. At a node \<open>ant\<close> of a networkx graph, without a self-loop and with its
  neighbours coloured, \<open>change_to_best\<close> in the normal mode (\<open>order_2 = False\<close>) with
  \<open>n_colors > 0\<close> changes nothing but the colour of \<open>ant\<close>, and the new colour \<open>b\<close> is
  the smallest colour of \<open>[0, n_colors)\<close> with the least number of neighbours of that
  colour, the neighbours' colours being those before the call: no colour has fewer
  such neighbours than \<open>b\<close>, and every colour below \<open>b\<close> has strictly more.
\<close>

theorem change_to_best_smallest_minimizer:
  assumes "nx_graph gr" and "ant \<in> set (nodes gr)" and "ant \<notin> set (adj gr ant)"
    and "\<forall>nei \<in> set (adj gr ant). color_of h gr nei \<noteq> None" and "0 < ncols"
  shows "\<exists>b. change_to_best h gr ncols ant False = Inr (set_color h (node gr ant) (int b)) \<and>
           int b < ncols \<and>
           (\<forall>c < nat ncols.
              length (filter (\<lambda>nei. color_of h gr nei = Some (int b)) (adj gr ant))
              \<le> length (filter (\<lambda>nei. color_of h gr nei = Some (int c)) (adj gr ant))) \<and>
           (\<forall>c < b.
              length (filter (\<lambda>nei. color_of h gr nei = Some (int b)) (adj gr ant))
              < length (filter (\<lambda>nei. color_of h gr nei = Some (int c)) (adj gr ant)))"
proof -
  let ?cnt = "\<lambda>c. length (filter (\<lambda>nei. color_of h gr nei = Some (int c)) (adj gr ant))"
  let ?cs = "arange ncols"
  have inj: "inj_on (node gr) (set (nodes gr))" and cl: "closed_adj gr"
    using assms(1) by (simp_all add: nx_graph_def distinct_map)
  have pre: "\<forall>nei \<in> set (adj gr ant). node gr nei \<noteq> node gr ant \<and> color_of h gr nei \<noteq> None"
  proof
    fix nei assume n: "nei \<in> set (adj gr ant)"
    then have "nei \<in> set (nodes gr)" using cl assms(2) by (auto simp: closed_adj_def)
    moreover have "nei \<noteq> ant" using n assms(3) by auto
    ultimately have "node gr nei \<noteq> node gr ant" using inj assms(2) by (auto dest: inj_onD)
    then show "node gr nei \<noteq> node gr ant \<and> color_of h gr nei \<noteq> None" using assms(4) n by simp
  qed
  have ne: "?cs \<noteq> []" and len: "length ?cs = nat ncols" using assms(5) by (simp_all add: arange_def)
  have nth: "j < nat ncols \<Longrightarrow> map ?cnt ?cs ! j = ?cnt j" for j by (simp add: arange_def)
  have tc: "trial_costs h (subgraph gr (ant # adj gr ant)) ant False ?cs
      = Inr (map ?cnt ?cs, set_color h (node gr ant) (int (last ?cs)))"
    using trial_costs_conflicts[OF assms(2) pre, of ?cs] ne by simp
  have "map ?cnt ?cs \<noteq> []" using ne by simp
  from argmin_first_min[OF this] obtain b where b: "b < nat ncols"
    "argmin (map ?cnt ?cs) = Inr b"
    "\<forall>j < nat ncols. map ?cnt ?cs ! b \<le> map ?cnt ?cs ! j"
    "\<forall>j < b. map ?cnt ?cs ! b < map ?cnt ?cs ! j"
    using len by auto
  have 1: "change_to_best h gr ncols ant False = Inr (set_color h (node gr ant) (int b))"
    using assms(2) tc b(2) by (simp add: change_to_best_def Let_def)
  have 2: "int b < ncols" using b(1) by linarith
  have 3: "\<forall>c < nat ncols. ?cnt b \<le> ?cnt c" using b(1,3) nth by metis
  have 4: "\<forall>c < b. ?cnt b < ?cnt c"
  proof (intro allI impI)
    fix c assume "c < b"
    then have "c < nat ncols" using b(1) by simp
    then show "?cnt b < ?cnt c" using b(1,4) nth \<open>c < b\<close> by metis
  qed
  show ?thesis using 1 2 3 4 by blast
qed

theorem change_to_best_smallest_minimizer_witness:
  "nx_graph g_path \<and> (1::nat) \<in> set (nodes g_path) \<and> (1::nat) \<notin> set (adj g_path 1) \<and>
   color_of heap_mixed g_path 0 = Some 0 \<and> color_of heap_mixed g_path 2 = Some 1 \<and>
   adj g_path 1 = [0, 2] \<and>
   change_to_best heap_mixed g_path 3 1 False = Inr (set_color heap_mixed (node g_path 1) 2)"
proof -
  have a: "nx_graph g_path" by (simp add: nx_graph_def closed_adj_def g_path_def)
  have b: "(1::nat) \<in> set (nodes g_path)" and c: "(1::nat) \<notin> set (adj g_path 1)"
    and adj: "adj g_path 1 = [0, 2]"
    by (simp_all add: g_path_def)
  have col: "color_of heap_mixed g_path 0 = Some 0" "color_of heap_mixed g_path 2 = Some 1"
    by (simp_all add: color_of_def heap_mixed_def g_path_def)
  have d: "\<forall>nei \<in> set (adj g_path 1). color_of heap_mixed g_path nei \<noteq> None"
    using col adj by simp
  have e: "(0::int) < 3" by simp
  from change_to_best_smallest_minimizer[OF a b c d e]
  obtain k where k: "change_to_best heap_mixed g_path 3 1 False
        = Inr (set_color heap_mixed (node g_path 1) (int k))"
    "int k < 3"
    "\<forall>c < nat 3.
       length (filter (\<lambda>nei. color_of heap_mixed g_path nei = Some (int k)) (adj g_path 1))
       \<le> length (filter (\<lambda>nei. color_of heap_mixed g_path nei = Some (int c)) (adj g_path 1))"
    by blast
  let ?cnt = "\<lambda>c. length (filter (\<lambda>nei. color_of heap_mixed g_path nei = Some (int c))
                 (adj g_path 1))"
  have le: "?cnt k \<le> ?cnt 2" using k(3)[rule_format, of 2] by simp
  have cnt: "?cnt 0 = 1" "?cnt 1 = 1" "?cnt 2 = 0"
    by (simp_all add: color_of_def heap_mixed_def g_path_def)
  have "k \<noteq> 0" using le cnt(1,3) by (intro notI) simp
  moreover have "k \<noteq> 1" using le cnt(2,3) by (intro notI) simp
  ultimately have "int k = 2" using k(2) by linarith
  then show ?thesis using a b c col adj k(1) by simp
qed

subsection \<open>The cached costs and the total cost\<close>

text \<open>Counting the conflicts from both ends of each edge.\<close>

lemma sum_list_filter_length:
  "sum_list (map (\<lambda>u. length (filter (P u) (f u))) us)
   = length (filter (\<lambda>(u, v). P u v) (concat (map (\<lambda>u. map (Pair u) (f u)) us)))"
  by (induction us) (simp_all add: filter_map comp_def)

lemma length_filter_split:
  "length (filter P xs) = length (filter P (filter Q xs)) + length (filter P (filter (\<lambda>x. \<not> Q x) xs))"
  by (induction xs) auto

lemma filter_pairs:
  "filter (\<lambda>(u, v). Q u v) (concat (map (\<lambda>u. map (Pair u) (f u)) us))
   = concat (map (\<lambda>u. map (Pair u) (filter (Q u) (f u))) us)"
  by (induction us) (simp_all add: filter_map comp_def)

lemma distinct_pairs:
  assumes "distinct us" "\<And>u. u \<in> set us \<Longrightarrow> distinct (f u)"
  shows "distinct (concat (map (\<lambda>u. map (Pair u) (f u)) us))"
  using assms
proof (induction us)
  case Nil
  then show ?case by simp
next
  case (Cons u us)
  have "distinct (map (Pair u) (f u))" using Cons.prems by (simp add: distinct_map inj_on_def)
  moreover have "distinct (concat (map (\<lambda>u. map (Pair u) (f u)) us))"
    using Cons by simp
  moreover have "set (map (Pair u) (f u)) \<inter> set (concat (map (\<lambda>u. map (Pair u) (f u)) us)) = {}"
    using Cons.prems(1) by auto
  ultimately show ?case by simp
qed

lemma set_pairs:
  "set (concat (map (\<lambda>u. map (Pair u) (f u)) us)) = {(u, v). u \<in> set us \<and> v \<in> set (f u)}"
  by auto

lemma nx_graph_nodes:
  assumes "nx_graph gr"
  shows "distinct (nodes gr)" and "inj_on (node gr) (set (nodes gr))"
  using assms unfolding nx_graph_def distinct_map by blast+

lemma nx_graph_adj:
  assumes "nx_graph gr" and "u \<in> set (nodes gr)"
  shows "distinct (adj gr u)"
    and "v \<in> set (adj gr u) \<Longrightarrow> v \<in> set (nodes gr)"
    and "v \<in> set (adj gr u) \<Longrightarrow> u \<in> set (adj gr v)"
proof -
  from assms(1) have c: "closed_adj gr"
    and s: "\<forall>n \<in> set (nodes gr). distinct (adj gr n) \<and> (\<forall>m \<in> set (adj gr n). n \<in> set (adj gr m))"
    unfolding nx_graph_def by blast+
  from s assms(2) show "distinct (adj gr u)" by blast
  from c assms(2) show "v \<in> set (adj gr u) \<Longrightarrow> v \<in> set (nodes gr)"
    unfolding closed_adj_def by blast
  from s assms(2) show "v \<in> set (adj gr u) \<Longrightarrow> u \<in> set (adj gr v)" by blast
qed

lemma handshake:
  assumes g: "nx_graph gr" and nl: "no_self_loops gr"
  shows "sum_list (map (conflicts h gr) (nodes gr)) = 2 * conflicting_edges h gr"
proof -
  define same where "same = (\<lambda>p. case p of (u, v) \<Rightarrow> color_of h gr v = color_of h gr u)"
  define up where "up = (\<lambda>p :: nat \<times> nat. case p of (u, v) \<Rightarrow> u < v)"
  define pairs where "pairs = concat (map (\<lambda>u. map (Pair u) (adj gr u)) (nodes gr))"
  have dn: "distinct (nodes gr)" using g by (rule nx_graph_nodes)
  have da: "\<And>u. u \<in> set (nodes gr) \<Longrightarrow> distinct (adj gr u)"
    using g by (rule nx_graph_adj)
  have sym: "\<And>u v. u \<in> set (nodes gr) \<Longrightarrow> v \<in> set (adj gr u) \<Longrightarrow>
                 v \<in> set (nodes gr) \<and> u \<in> set (adj gr v)"
    using nx_graph_adj(2,3)[OF g] by blast
  have dp: "distinct pairs" unfolding pairs_def using dn da by (rule distinct_pairs)
  have sp: "set pairs = {(u, v). u \<in> set (nodes gr) \<and> v \<in> set (adj gr u)}"
    unfolding pairs_def by (rule set_pairs)
  have "sum_list (map (conflicts h gr) (nodes gr))
      = length (filter (\<lambda>(u, v). color_of h gr v = color_of h gr u) pairs)"
    unfolding conflicts_def pairs_def by (rule sum_list_filter_length)
  then have total: "sum_list (map (conflicts h gr) (nodes gr)) = length (filter same pairs)"
    by (simp add: same_def)
  have split: "length (filter same pairs)
     = length (filter same (filter up pairs)) + length (filter same (filter (\<lambda>p. \<not> up p) pairs))"
    by (rule length_filter_split)
  have "filter up pairs = filter (\<lambda>(u, v). u < v) pairs"
    by (simp add: up_def)
  also have "\<dots> = edges gr" unfolding pairs_def edges_def by (rule filter_pairs)
  finally have upe: "filter up pairs = edges gr" .
  have "filter same (edges gr) = filter (\<lambda>(u, v). color_of h gr u = color_of h gr v) (edges gr)"
    by (rule filter_cong) (auto simp: same_def)
  then have first: "length (filter same (filter up pairs)) = conflicting_edges h gr"
    by (simp add: upe conflicting_edges_def)
  let ?U = "set (filter same (filter up pairs))"
  let ?D = "set (filter same (filter (\<lambda>p. \<not> up p) pairs))"
  have "?D = prod.swap ` ?U"
  proof (rule set_eqI)
    fix p :: "nat \<times> nat"
    obtain u v where p: "p = (u, v)" by (cases p)
    show "(p \<in> ?D) = (p \<in> prod.swap ` ?U)"
    proof
      assume "p \<in> ?D"
      then have a: "u \<in> set (nodes gr)" "v \<in> set (adj gr u)"
        "color_of h gr v = color_of h gr u" "\<not> u < v"
        using p sp by (auto simp: same_def up_def)
      have "u \<noteq> v" using a(1,2) nl by (auto simp: no_self_loops_def)
      then have "v < u" using a(4) by simp
      then have "(v, u) \<in> ?U" using sym[OF a(1,2)] a(3) sp by (auto simp: same_def up_def)
      then have "prod.swap (v, u) \<in> prod.swap ` ?U" by (rule imageI)
      then show "p \<in> prod.swap ` ?U" using p by simp
    next
      assume "p \<in> prod.swap ` ?U"
      then obtain q where q: "q \<in> ?U" "p = prod.swap q" by blast
      from q(2) p have "q = (v, u)" by (cases q) simp
      then have a: "v \<in> set (nodes gr)" "u \<in> set (adj gr v)"
        "color_of h gr u = color_of h gr v" "v < u"
        using q(1) sp by (auto simp: same_def up_def)
      show "p \<in> ?D" using sym[OF a(1,2)] a(3,4) sp p by (auto simp: same_def up_def)
    qed
  qed
  then have "card ?D = card ?U" by (simp add: card_image)
  moreover have "distinct (filter same (filter up pairs))"
    "distinct (filter same (filter (\<lambda>p. \<not> up p) pairs))" using dp by simp_all
  ultimately have "length (filter same (filter (\<lambda>p. \<not> up p) pairs))
     = length (filter same (filter up pairs))"
    by (metis distinct_card)
  then show ?thesis using total split first by simp
qed

lemma conflict_level_value:
  assumes a: "conflict_level h gr n = Inr c"
  shows "c = conflicts h gr n \<and> n \<in> set (nodes gr)"
proof (cases "adj gr n = []")
  case True
  then show ?thesis using a by (auto simp: conflict_level_def conflicts_def split: if_splits)
next
  case False
  from a have n: "n \<in> set (nodes gr)" by (auto simp: conflict_level_def split: if_splits)
  from a False n obtain cn where cn: "color_of h gr n = Some cn"
    by (auto simp: conflict_level_def split: option.splits)
  from a False n cn have "c = length (filter (\<lambda>nei. color_of h gr nei = Some cn) (adj gr n))"
    by (auto simp: conflict_level_def split: if_splits)
  then show ?thesis using n cn by (simp add: conflicts_def)
qed

lemma conflicts_cong:
  assumes "\<And>m. m \<in> set (n # adj gr n) \<Longrightarrow> color_of h' gr m = color_of h gr m"
  shows "conflicts h' gr n = conflicts h gr n"
  unfolding conflicts_def
  by (rule arg_cong[where f = length], rule filter_cong) (simp_all add: assms)

lemma total_cost_cached:
  assumes "costs_cached h gr"
  shows "total_cost h gr = Inr (sum_list (map (conflicts h gr) (nodes gr)))"
  unfolding total_cost_def
  by (rule sum_all_map) (use assms in \<open>simp add: costs_cached_def read_cost_def\<close>)

lemma trial_costs_heap:
  "trial_costs h gt ant o2 cs = Inr (vs, h') \<Longrightarrow>
   h' = (if cs = [] then h else set_color h (node gt ant) (int (last cs)))"
proof (induction cs arbitrary: h vs)
  case Nil
  then show ?case by simp
next
  case (Cons c cs)
  let ?h1 = "set_color h (node gt ant) (int c)"
  from Cons.prems obtain ws where "trial_costs ?h1 gt ant o2 cs = Inr (ws, h')"
    by (auto simp: Let_def split: sum.splits)
  from Cons.IH[OF this] show ?case by simp
qed

lemma change_to_best_heap:
  assumes "change_to_best h gr ncols ant o2 = Inr h'"
  shows "\<exists>c. h' = set_color h (node gr ant) c"
proof -
  from assms obtain vs h1 b where
    t: "trial_costs h (subgraph gr (ant # adj gr ant)) ant o2 (arange ncols) = Inr (vs, h1)"
    and h': "h' = set_color h1 (node gr ant) (int b)"
    by (auto simp: change_to_best_def Let_def split: if_splits sum.splits)
  from trial_costs_heap[OF t] have "h1 = h \<or> (\<exists>c. h1 = set_color h (node gr ant) c)"
    by (auto simp: subgraph_around)
  then show ?thesis using h' by auto
qed

lemma change_to_random_heap:
  assumes "change_to_random h gr ncols ant r = Inr (h', r')"
  shows "\<exists>c. h' = set_color h (node gr ant) c"
  using assms by (auto simp: change_to_random_def split: sum.splits)

lemma ant_step_cases:
  assumes "ant_step k st = Inr st'"
  obtains n1 c h' r' where
    "refresh_costs (self_g st) (n1 # adj (self_g st) n1)
        (set_color (heap st) (node (self_g st) n1) c) = Inr h'"
    "st' = st\<lparr>ants := (ants st)[k := n1], heap := h', rng := r'\<rparr>"
proof -
  let ?g = "self_g st"
  from assms have 1: "\<not> (verbose st \<and> first_best st = 0)" "\<not> length (ants st) \<le> k"
    by (auto simp: ant_step_def split: if_splits)
  obtain u r1 where u: "np_random (rng st) = (u, r1)" by (cases "np_random (rng st)")
  define moved where "moved = (if u < pc st
                      then (case worst_adjacent_node (heap st) ?g (ants st ! k) (order_2 st) of
                              Inl e \<Rightarrow> Inl e | Inr n1 \<Rightarrow> Inr (n1, r1))
                      else (if ants st ! k \<notin> set (nodes ?g) then Inl NetworkXError
                            else np_choice (adj ?g (ants st ! k)) r1))"
  from assms 1 u obtain n1 r2 where m: "moved = Inr (n1, r2)"
    by (cases moved) (auto simp: ant_step_def moved_def Let_def)
  obtain v r3 where v: "np_random r2 = (v, r3)" by (cases "np_random r2")
  define painted where "painted = (if v < pn st
                                then (case change_to_best (heap st) ?g (n_colors st) n1
                                             (order_2 st) of
                                        Inl e \<Rightarrow> Inl e | Inr h1 \<Rightarrow> Inr (h1, r3))
                                else change_to_random (heap st) ?g (n_colors st) n1 r3)"
  from assms 1 u m v obtain h1 r4 where c: "painted = Inr (h1, r4)"
    by (cases painted) (auto simp: ant_step_def moved_def[symmetric] painted_def Let_def)
  from assms 1 u m v c obtain h2 where
    r: "refresh_costs ?g (n1 # adj ?g n1) h1 = Inr h2"
    and s: "st' = st\<lparr>ants := (ants st)[k := n1], heap := h2, rng := r4\<rparr>"
    by (cases "refresh_costs ?g (n1 # adj ?g n1) h1")
       (auto simp: ant_step_def moved_def[symmetric] painted_def[symmetric] Let_def)
  have "\<exists>c. h1 = set_color (heap st) (node ?g n1) c"
    using c change_to_best_heap change_to_random_heap
    by (fastforce simp: painted_def split: if_splits sum.splits)
  then obtain cc where "h1 = set_color (heap st) (node ?g n1) cc" ..
  then show ?thesis using r s that by blast
qed

lemma own_dicts_inj: "own_dicts h gr \<Longrightarrow> inj_on (node gr) (set (nodes gr))"
  unfolding own_dicts_def distinct_map by blast

lemma own_dicts_alloc: "own_dicts h gr \<Longrightarrow> n \<in> set (nodes gr) \<Longrightarrow> node gr n < fresh h"
  unfolding own_dicts_def by blast

text \<open>A new colour at one node and the refresh of the node and its neighbours.\<close>

lemma recolor_refresh:
  assumes g: "nx_graph gr" and cc: "costs_cached h gr"
    and r: "refresh_costs gr (n1 # adj gr n1) (set_color h (node gr n1) c) = Inr h2"
  shows "costs_cached h2 gr"
    and "fresh h2 = fresh h"
    and "\<And>a. a \<notin> node gr ` set (nodes gr) \<Longrightarrow> cells h2 a = cells h a"
proof -
  let ?h1 = "set_color h (node gr n1) c"
  let ?ns = "n1 # adj gr n1"
  have inj: "inj_on (node gr) (set (nodes gr))" using g by (rule nx_graph_nodes)
  have fr: "fresh h2 = fresh ?h1"
    and col: "\<And>a. color (cells h2 a) = color (cells ?h1 a)"
    and old: "\<And>a. a \<notin> node gr ` set ?ns \<Longrightarrow> cells h2 a = cells ?h1 a"
    using refresh_costs_frame[OF r] by blast+
  have "conflict_level ?h1 gr n1 \<noteq> Inl e" for e
    using r by (auto split: sum.splits)
  then obtain c1 where "conflict_level ?h1 gr n1 = Inr c1"
    by (cases "conflict_level ?h1 gr n1") auto
  then have n1: "n1 \<in> set (nodes gr)" using conflict_level_value by blast
  have sub: "set ?ns \<subseteq> set (nodes gr)" using n1 nx_graph_adj(2)[OF g n1] by auto
  have col2: "color_of h2 gr m = color_of ?h1 gr m" for m by (simp add: color_of_def col)
  show "fresh h2 = fresh h" using fr by simp
  show "cells h2 a = cells h a" if "a \<notin> node gr ` set (nodes gr)" for a
  proof -
    have "a \<notin> node gr ` set ?ns" using that sub by blast
    moreover have "a \<noteq> node gr n1" using that n1 by blast
    ultimately show ?thesis using old by simp
  qed
  show "costs_cached h2 gr"
    unfolding costs_cached_def
  proof
    fix n assume n: "n \<in> set (nodes gr)"
    show "cost_of h2 gr n = Some (conflicts h2 gr n)"
    proof (cases "n \<in> set ?ns")
      case True
      have "conflict_level ?h1 gr n = Inr (the (cost_of h2 gr n)) \<and> cost_of h2 gr n \<noteq> None"
        using r inj sub True by (rule refresh_costs_cost)
      then have "the (cost_of h2 gr n) = conflicts ?h1 gr n" "cost_of h2 gr n \<noteq> None"
        using conflict_level_value by blast+
      moreover have "conflicts h2 gr n = conflicts ?h1 gr n"
        by (rule conflicts_cong) (simp add: col2)
      ultimately show ?thesis by auto
    next
      case False
      then have nn: "n \<noteq> n1" and na: "n \<notin> set (adj gr n1)" by auto
      have "node gr n \<notin> node gr ` set ?ns"
      proof
        assume "node gr n \<in> node gr ` set ?ns"
        then obtain m where m: "m \<in> set ?ns" "node gr m = node gr n" by force
        then have "m = n" using inj sub n by (auto dest: inj_onD)
        then show False using m(1) False by simp
      qed
      moreover have a1: "node gr n \<noteq> node gr n1" using inj n n1 nn by (auto dest: inj_onD)
      ultimately have "cells h2 (node gr n) = cells h (node gr n)" using old by simp
      then have cost: "cost_of h2 gr n = cost_of h gr n" by (simp add: cost_of_def)
      have "conflicts h2 gr n = conflicts h gr n"
      proof (rule conflicts_cong)
        fix m assume m: "m \<in> set (n # adj gr n)"
        have "m \<noteq> n1"
        proof
          assume "m = n1"
          then have "n1 \<in> set (adj gr n)" using m nn by auto
          then have "n \<in> set (adj gr n1)" using nx_graph_adj(3)[OF g n] by blast
          then show False using na by simp
        qed
        moreover have "m \<in> set (nodes gr)" using m n nx_graph_adj(2)[OF g n] by auto
        ultimately have "node gr m \<noteq> node gr n1" using inj n1 by (auto dest: inj_onD)
        then show "color_of h2 gr m = color_of h gr m"
          by (simp add: col2 color_of_set_color)
      qed
      then show ?thesis using cost cc n by (simp add: costs_cached_def)
    qed
  qed
qed

lemma ant_step_ok:
  assumes ok: "solver_ok st" and a: "ant_step k st = Inr st'"
  shows "solver_ok st'"
    and "self_g st' = self_g st" and "best st' = best st" and "cost_best st' = cost_best st"
    and "curr_cost st' = curr_cost st" and "self_i st' = self_i st"
    and "fresh (heap st') = fresh (heap st)"
    and "\<And>m. m \<in> set (nodes (best st)) \<Longrightarrow>
           cells (heap st') (node (best st) m) = cells (heap st) (node (best st) m)"
proof -
  let ?g = "self_g st"
  from a obtain n1 c h' r' where
    r: "refresh_costs ?g (n1 # adj ?g n1) (set_color (heap st) (node ?g n1) c) = Inr h'"
    and s: "st' = st\<lparr>ants := (ants st)[k := n1], heap := h', rng := r'\<rparr>"
    by (rule ant_step_cases)
  from ok have g: "nx_graph ?g" and od: "own_dicts (heap st) ?g"
    and cc: "costs_cached (heap st) ?g" and ba: "best_apart st"
    by (simp_all add: solver_ok_def)
  note rr = recolor_refresh[OF g cc r]
  show "self_g st' = self_g st" "best st' = best st" "cost_best st' = cost_best st"
    "curr_cost st' = curr_cost st" "self_i st' = self_i st"
    by (simp_all add: s)
  show fr: "fresh (heap st') = fresh (heap st)" using rr(2) by (simp add: s)
  show keep: "cells (heap st') (node (best st) m) = cells (heap st) (node (best st) m)"
    if "m \<in> set (nodes (best st))" for m
  proof -
    have "node (best st) m \<notin> node ?g ` set (nodes ?g)"
    proof
      assume "node (best st) m \<in> node ?g ` set (nodes ?g)"
      then obtain n where "n \<in> set (nodes ?g)" "node ?g n = node (best st) m" by force
      then show False using ba that unfolding best_apart_def by blast
    qed
    then show ?thesis using rr(3) by (simp add: s)
  qed
  have "own_dicts h' ?g" using od rr(2) by (simp add: own_dicts_def)
  moreover have "best_apart st'" using ba rr(2) by (simp add: best_apart_def s)
  ultimately show "solver_ok st'" using g rr(1) by (simp add: solver_ok_def s)
qed

lemma ants_loop_ok:
  assumes "solver_ok st" and "ants_loop ks st = Inr st'"
  shows "solver_ok st' \<and> self_g st' = self_g st \<and> best st' = best st \<and>
         cost_best st' = cost_best st \<and> self_i st' = self_i st \<and>
         fresh (heap st') = fresh (heap st) \<and>
         (\<forall>m \<in> set (nodes (best st)).
            cells (heap st') (node (best st) m) = cells (heap st) (node (best st) m))"
  using assms
proof (induction ks arbitrary: st)
  case Nil
  then show ?case by simp
next
  case (Cons k ks)
  from Cons.prems(2) obtain s1 where s1: "ant_step k st = Inr s1" "ants_loop ks s1 = Inr st'"
    by (auto split: sum.splits)
  note step = ant_step_ok[OF Cons.prems(1) s1(1)]
  from Cons.IH[OF step(1) s1(2)] step show ?case by simp
qed

lemma nx_graph_copy: "nx_graph gr \<Longrightarrow> nx_graph (fst (copy_graph gr h))"
  unfolding nx_graph_def
  using copy_graph_distinct[of gr h] closed_adj_copy[of gr h]
  by (simp add: copy_graph_shape)

lemma nx_graph_closed: "nx_graph gr \<Longrightarrow> closed_adj gr"
  unfolding nx_graph_def by blast

lemma costs_cached_frame:
  assumes g: "nx_graph gr" and cc: "costs_cached h gr"
    and same: "\<And>n. n \<in> set (nodes gr) \<Longrightarrow> cells h' (node gr n) = cells h (node gr n)"
  shows "costs_cached h' gr"
  unfolding costs_cached_def
proof
  fix n assume n: "n \<in> set (nodes gr)"
  have "conflicts h' gr n = conflicts h gr n"
  proof (rule conflicts_cong)
    fix m assume "m \<in> set (n # adj gr n)"
    then have "m \<in> set (nodes gr)" using n nx_graph_adj(2)[OF g n] by auto
    then show "color_of h' gr m = color_of h gr m" by (simp add: color_of_def same)
  qed
  moreover have "cost_of h' gr n = cost_of h gr n" using n by (simp add: cost_of_def same)
  ultimately show "cost_of h' gr n = Some (conflicts h' gr n)"
    using cc n by (simp add: costs_cached_def)
qed

lemma total_cost_frame:
  assumes "\<And>n. n \<in> set (nodes gr) \<Longrightarrow> cells h' (node gr n) = cells h (node gr n)"
  shows "total_cost h' gr = total_cost h gr"
  unfolding total_cost_def
  by (rule sum_all_cong) (simp add: read_cost_def cost_of_def assms)

text \<open>What a copy of the working graph as the new best snapshot keeps.\<close>

lemma snapshot_ok:
  assumes g: "nx_graph gr" and od: "own_dicts h gr" and cc: "costs_cached h gr"
  shows "solver_ok (st\<lparr>self_g := gr, best := fst (copy_graph gr h), heap := snd (copy_graph gr h)\<rparr>)"
proof -
  let ?b = "fst (copy_graph gr h)" and ?h' = "snd (copy_graph gr h)"
  have same: "cells ?h' (node gr n) = cells h (node gr n)" if "n \<in> set (nodes gr)" for n
    using own_dicts_alloc[OF od that] by (rule copy_graph_old)
  have 1: "own_dicts ?h' gr"
    using od by (auto simp: own_dicts_def copy_graph_shape)
  have 2: "costs_cached ?h' gr" using g cc same by (rule costs_cached_frame)
  have 3: "best_apart (st\<lparr>self_g := gr, best := ?b, heap := ?h'\<rparr>)"
    unfolding best_apart_def
  proof (intro ballI conjI)
    fix m assume "m \<in> set (nodes (best (st\<lparr>self_g := gr, best := ?b, heap := ?h'\<rparr>)))"
    then have m: "m \<in> set (nodes gr)" by (simp add: copy_graph_shape)
    show "node (best (st\<lparr>self_g := gr, best := ?b, heap := ?h'\<rparr>)) m
            < fresh (heap (st\<lparr>self_g := gr, best := ?b, heap := ?h'\<rparr>))"
      using copy_graph_new(3)[OF m, of h] by simp
    fix n assume "n \<in> set (nodes (self_g (st\<lparr>self_g := gr, best := ?b, heap := ?h'\<rparr>)))"
    then have "node gr n < fresh h" using od by (simp add: own_dicts_def)
    moreover have "fresh h \<le> node ?b m" using copy_graph_new(2)[OF m, of h] .
    ultimately show "node (self_g (st\<lparr>self_g := gr, best := ?b, heap := ?h'\<rparr>)) n
            \<noteq> node (best (st\<lparr>self_g := gr, best := ?b, heap := ?h'\<rparr>)) m"
      by simp
  qed
  show ?thesis using g 1 2 3 by (simp add: solver_ok_def)
qed

lemma solver_ok_cong:
  assumes "solver_ok st" "self_g st' = self_g st" "best st' = best st" "heap st' = heap st"
  shows "solver_ok st'"
  using assms by (simp add: solver_ok_def best_apart_def)

lemma keep_best_cases:
  assumes "keep_best st = Inr st'"
  obtains c where "total_cost (heap st) (self_g st) = Inr c" "\<not> c < cost_best st"
      "st' = st\<lparr>curr_cost := c\<rparr>"
  | c where "total_cost (heap st) (self_g st) = Inr c" "c < cost_best st"
      "st' = st\<lparr>curr_cost := c, best := fst (copy_graph (self_g st) (heap st)),
                heap := snd (copy_graph (self_g st) (heap st)), cost_best := c\<rparr>"
  using assms unfolding keep_best_def
  by (auto simp: Let_def case_prod_beta split: sum.splits if_splits)

lemma keep_best_ok:
  assumes ok: "solver_ok st" and k: "keep_best st = Inr st'"
  shows "solver_ok st'"
    and "self_g st' = self_g st" and "self_i st' = self_i st"
    and "total_cost (heap st') (self_g st') = Inr (curr_cost st')"
    and "cost_best st' = min (cost_best st) (curr_cost st')"
    and "\<not> curr_cost st' < cost_best st \<Longrightarrow> best st' = best st \<and> heap st' = heap st"
    and "curr_cost st' < cost_best st \<Longrightarrow>
           nodes (best st') = nodes (self_g st') \<and>
           (\<forall>n \<in> set (nodes (self_g st')).
              color_of (heap st') (best st') n = color_of (heap st') (self_g st') n)"
proof -
  let ?g = "self_g st" and ?h = "heap st"
  from ok have g: "nx_graph ?g" and od: "own_dicts ?h ?g" and cc: "costs_cached ?h ?g"
    by (simp_all add: solver_ok_def)
  have same: "cells (snd (copy_graph ?g ?h)) (node ?g n) = cells ?h (node ?g n)"
    if "n \<in> set (nodes ?g)" for n
    using own_dicts_alloc[OF od that] by (rule copy_graph_old)
  from k show "solver_ok st'"
  proof (cases rule: keep_best_cases)
    case (1 c)
    then show ?thesis using ok by (auto intro: solver_ok_cong)
  next
    case (2 c)
    have "solver_ok (st\<lparr>self_g := ?g, best := fst (copy_graph ?g ?h),
                       heap := snd (copy_graph ?g ?h)\<rparr>)"
      using g od cc by (rule snapshot_ok)
    then show ?thesis using 2(3) by (auto intro: solver_ok_cong)
  qed
  from k show "self_g st' = self_g st" "self_i st' = self_i st"
    by (cases rule: keep_best_cases; simp)+
  from k show "total_cost (heap st') (self_g st') = Inr (curr_cost st')"
  proof (cases rule: keep_best_cases)
    case (1 c)
    then show ?thesis by simp
  next
    case (2 c)
    have "total_cost (snd (copy_graph ?g ?h)) ?g = total_cost ?h ?g"
      using same by (rule total_cost_frame)
    then show ?thesis using 2 by simp
  qed
  from k show "cost_best st' = min (cost_best st) (curr_cost st')"
    by (cases rule: keep_best_cases) auto
  from k show "best st' = best st \<and> heap st' = heap st" if "\<not> curr_cost st' < cost_best st"
    using that by (cases rule: keep_best_cases) auto
  from k show "nodes (best st') = nodes (self_g st') \<and>
           (\<forall>n \<in> set (nodes (self_g st')).
              color_of (heap st') (best st') n = color_of (heap st') (self_g st') n)"
    if "curr_cost st' < cost_best st"
  proof (cases rule: keep_best_cases)
    case (1 c)
    then show ?thesis using that by simp
  next
    case (2 c)
    have "color_of (snd (copy_graph ?g ?h)) (fst (copy_graph ?g ?h)) n
        = color_of (snd (copy_graph ?g ?h)) ?g n" if "n \<in> set (nodes ?g)" for n
      using copy_graph_color_of[OF that, of ?h] same[OF that] by (simp add: color_of_def)
    then show ?thesis using 2 by (simp add: copy_graph_shape)
  qed
qed

lemma init_solver_ok:
  assumes g: "nx_graph (self_g st)" and od: "own_dicts (heap st) (self_g st)"
    and i: "init_solver st = Inr st'"
  shows "solver_ok st'" and "total_cost (heap st') (self_g st') = Inr (cost_best st')"
    and "curr_cost st' = cost_best st'" and "self_g st' = self_g st" and "self_i st' = self_i st"
proof -
  let ?g = "self_g st"
  from i obtain as r' h1 c where
    h1: "refresh_costs ?g (nodes ?g) (heap st) = Inr h1"
    and tc: "total_cost (snd (copy_graph ?g h1)) ?g = Inr c"
    and st': "st' = st\<lparr>ants := as, rng := r', heap := snd (copy_graph ?g h1),
              best := fst (copy_graph ?g h1),
              cost_best := c, curr_cost := c, first_best := c\<rparr>"
    by (rule init_solver_cases)
  have inj: "inj_on (node ?g) (set (nodes ?g))" using od by (rule own_dicts_inj)
  have fr: "fresh h1 = fresh (heap st)"
    and col: "\<And>a. color (cells h1 a) = color (cells (heap st) a)"
    using refresh_costs_frame[OF h1] by blast+
  have od1: "own_dicts h1 ?g" using od fr by (simp add: own_dicts_def)
  have cc1: "costs_cached h1 ?g"
    unfolding costs_cached_def
  proof
    fix n assume n: "n \<in> set (nodes ?g)"
    have "conflict_level (heap st) ?g n = Inr (the (cost_of h1 ?g n)) \<and> cost_of h1 ?g n \<noteq> None"
      using h1 inj _ n by (rule refresh_costs_cost) simp
    then have "the (cost_of h1 ?g n) = conflicts (heap st) ?g n" "cost_of h1 ?g n \<noteq> None"
      using conflict_level_value by blast+
    moreover have "conflicts h1 ?g n = conflicts (heap st) ?g n"
      by (rule conflicts_cong) (simp add: color_of_def col)
    ultimately show "cost_of h1 ?g n = Some (conflicts h1 ?g n)" by auto
  qed
  have "solver_ok (st\<lparr>self_g := ?g, best := fst (copy_graph ?g h1),
                       heap := snd (copy_graph ?g h1)\<rparr>)"
    using g od1 cc1 by (rule snapshot_ok)
  then show "solver_ok st'" by (rule solver_ok_cong) (simp_all add: st')
  show "total_cost (heap st') (self_g st') = Inr (cost_best st')" using tc by (simp add: st')
  show "curr_cost st' = cost_best st'" "self_g st' = self_g st" "self_i st' = self_i st"
    by (simp_all add: st')
qed

lemma AntSolver_ok:
  assumes g: "nx_graph g0" and a: "AntSolver a g0 h0 r clk = Inr st"
  shows "solver_ok st" and "total_cost (heap st) (self_g st) = Inr (cost_best st)"
    and "curr_cost st = cost_best st" and "self_i st = 0"
proof -
  from a obtain mc where mc: "max_c g0 = Inr mc"
    by (cases "max_c g0") (auto simp: AntSolver_def)
  let ?g1 = "fst (copy_graph g0 h0)" and ?h1 = "snd (copy_graph g0 h0)"
  have d: "distinct (map (node g0) (nodes g0))" using g unfolding nx_graph_def by blast
  have g1: "nx_graph ?g1" using g by (rule nx_graph_copy)
  have d1: "distinct (map (node ?g1) (nodes ?g1))" using g1 unfolding nx_graph_def by blast
  have "\<exists>s. init_solver s = Inr st \<and> nx_graph (self_g s) \<and> own_dicts (heap s) (self_g s) \<and>
            self_i s = 0"
  proof (cases "arg_pre_colored a")
    case True
    then show ?thesis
      using a g1 copy_graph_own_dicts[OF d, of h0] unfolding AntSolver_unfold[OF mc]
      by (intro exI conjI) (assumption | simp)+
  next
    case False
    with a obtain h2 r1 where
      "random_node_coloring ?g1 (Some (case arg_n_colors a of None \<Rightarrow> mc | Some k \<Rightarrow> k)) ?h1 r
         = Inr (h2, r1)"
      unfolding AntSolver_unfold[OF mc] by (auto split: sum.splits)
    with a False show ?thesis
      using nx_graph_copy[OF g1, of h2] copy_graph_own_dicts[OF d1, of h2]
      unfolding AntSolver_unfold[OF mc]
      by (intro exI conjI) (assumption | simp)+
  qed
  then obtain s where s: "init_solver s = Inr st" "nx_graph (self_g s)"
    "own_dicts (heap s) (self_g s)" "self_i s = 0" by blast
  note r = init_solver_ok[OF s(2,3,1)]
  show "solver_ok st" "total_cost (heap st) (self_g st) = Inr (cost_best st)"
    "curr_cost st = cost_best st" by (rule r)+
  show "self_i st = 0" using r(5) s(4) by simp
qed

lemma reachable_ok:
  assumes "reachable g0 h0 st" and g: "nx_graph g0"
  shows "solver_ok st \<and> nodes (self_g st) = nodes g0 \<and> adj (self_g st) = adj g0"
  using assms(1)
proof (induction rule: reachable.induct)
  case (constructed a r clk st)
  then show ?case using AntSolver_ok(1)[OF g] AntSolver_shape by blast
next
  case (ant_moved st k st')
  then show ?case using ant_step_ok(1,2) by metis
next
  case (best_kept st st')
  then show ?case using keep_best_ok(1,2) by metis
next
  case (clock_read st)
  then show ?case by (auto simp: perf_counter_def intro: solver_ok_cong)
next
  case (counter_reset st)
  then show ?case by (auto intro: solver_ok_cong)
qed

text \<open>
  Claim C4. In every state that a solver built on a simple graph can be in (after the
  construction and after each step of \<open>solve\<close>, an ant's step with its refresh of
  costs among them), the cached cost of each node is the number of its neighbours of
  its colour, and \<open>total_cost\<close> returns twice the number of edges whose two ends have
  the same colour, an even number.
\<close>

theorem cached_costs_and_parity:
  assumes "reachable g0 h0 st" and "nx_graph g0" and "no_self_loops g0"
  shows "(\<forall>n \<in> set (nodes (self_g st)).
            cost_of (heap st) (self_g st) n = Some (conflicts (heap st) (self_g st) n)) \<and>
         total_cost (heap st) (self_g st) = Inr (2 * conflicting_edges (heap st) (self_g st)) \<and>
         even (2 * conflicting_edges (heap st) (self_g st))"
proof -
  from reachable_ok[OF assms(1,2)] have ok: "solver_ok st"
    and shape: "nodes (self_g st) = nodes g0" "adj (self_g st) = adj g0" by blast+
  from ok have g: "nx_graph (self_g st)" and cc: "costs_cached (heap st) (self_g st)"
    by (simp_all add: solver_ok_def)
  have nl: "no_self_loops (self_g st)" using assms(3) shape by (simp add: no_self_loops_def)
  have "total_cost (heap st) (self_g st)
      = Inr (sum_list (map (conflicts (heap st) (self_g st)) (nodes (self_g st))))"
    using cc by (rule total_cost_cached)
  then have "total_cost (heap st) (self_g st)
      = Inr (2 * conflicting_edges (heap st) (self_g st))"
    using handshake[OF g nl] by simp
  then show ?thesis using cc by (simp add: costs_cached_def)
qed

theorem cached_costs_and_parity_witness:
  "nx_graph g_edge \<and> no_self_loops g_edge \<and>
   (\<exists>st st'. AntSolver args_one_color g_edge heap_edge rng_zero (\<lambda>k. 0) = Inr st \<and>
      ant_step 0 st = Inr st' \<and> reachable g_edge heap_edge st' \<and>
      conflicting_edges (heap st') (self_g st') = 1 \<and>
      total_cost (heap st') (self_g st') = Inr 2)"
proof -
  have a: "nx_graph g_edge" by (simp add: nx_graph_def closed_adj_def g_edge_def)
  have b: "no_self_loops g_edge" by (simp add: no_self_loops_def g_edge_def)
  have "\<exists>st st'. AntSolver args_one_color g_edge heap_edge rng_zero (\<lambda>k. 0) = Inr st \<and>
      ant_step 0 st = Inr st' \<and> conflicting_edges (heap st') (self_g st') = 1"
    by (simp add: args_one_color_def g_edge_def heap_edge_def rng_zero_def
      AntSolver_def max_c_def degree_def copy_graph_def index_of_def init_solver_def
      np_choice_norepl_def arange_def rng_next_def conflict_level_def color_of_def cost_of_def
      set_cost_def set_color_def total_cost_def read_cost_def Let_def
      ant_step_def np_random_def worst_adjacent_node_def argmax_def change_to_best_def
      subgraph_def argmin_def conflicting_edges_def edges_def)
  then obtain st st' where s: "AntSolver args_one_color g_edge heap_edge rng_zero (\<lambda>k. 0) = Inr st"
    "ant_step 0 st = Inr st'" "conflicting_edges (heap st') (self_g st') = 1" by blast
  have r: "reachable g_edge heap_edge st'"
    using s(1,2) by (blast intro: reachable.intros)
  from cached_costs_and_parity[OF r a b]
  have "total_cost (heap st') (self_g st') = Inr 2" using s(3) by simp
  then show ?thesis using a b s r by blast
qed

subsection \<open>The best snapshot and the working graph\<close>

lemma ant_step_frame:
  assumes ok: "solver_ok st" and a: "ant_step k st = Inr st'"
    and out: "x \<notin> node (self_g st) ` set (nodes (self_g st))"
  shows "cells (heap st') x = cells (heap st) x"
proof -
  let ?g = "self_g st"
  from a obtain n1 c h' r' where
    r: "refresh_costs ?g (n1 # adj ?g n1) (set_color (heap st) (node ?g n1) c) = Inr h'"
    and s: "st' = st\<lparr>ants := (ants st)[k := n1], heap := h', rng := r'\<rparr>"
    by (rule ant_step_cases)
  from ok have g: "nx_graph ?g" and cc: "costs_cached (heap st) ?g"
    by (simp_all add: solver_ok_def)
  show ?thesis using recolor_refresh(3)[OF g cc r out] by (simp add: s)
qed

lemma keep_best_frame:
  assumes "keep_best st = Inr st'"
  shows "fresh (heap st) \<le> fresh (heap st')"
    and "x < fresh (heap st) \<Longrightarrow> cells (heap st') x = cells (heap st) x"
    and "best st' = best st \<and> cost_best st' = cost_best st \<or> cost_best st' < cost_best st"
  using assms
  by (cases rule: keep_best_cases; simp add: copy_graph_shape copy_graph_old)+

lemma later_invariant:
  assumes l: "later p s" and ok: "solver_ok p"
  shows "solver_ok s \<and> self_g s = self_g p \<and> fresh (heap p) \<le> fresh (heap s) \<and>
         (\<forall>x. x < fresh (heap p) \<and> x \<notin> node (self_g p) ` set (nodes (self_g p)) \<longrightarrow>
              cells (heap s) x = cells (heap p) x) \<and>
         (best s = best p \<and> cost_best s = cost_best p \<or> cost_best s < cost_best p)"
  using l
proof (induction rule: later.induct)
  case now
  then show ?case using ok by simp
next
  case (after_ant st k st')
  then have ok': "solver_ok st" and g: "self_g st = self_g p" by blast+
  note step = ant_step_ok[OF ok' after_ant.hyps(2)]
  have "cells (heap st') x = cells (heap st) x"
    if "x \<notin> node (self_g p) ` set (nodes (self_g p))" for x
    using ant_step_frame[OF ok' after_ant.hyps(2)] that g by simp
  then show ?case using after_ant.IH step by simp
next
  case (after_best st st')
  then have ok': "solver_ok st" by blast
  note kb = keep_best_ok[OF ok' after_best.hyps(2)]
  note fr = keep_best_frame[OF after_best.hyps(2)]
  have "cells (heap st') x = cells (heap st) x" if "x < fresh (heap p)" for x
    using fr(2)[of x] that after_best.IH by simp
  moreover have "fresh (heap p) \<le> fresh (heap st')" using fr(1) after_best.IH by simp
  moreover have "best st' = best p \<and> cost_best st' = cost_best p \<or> cost_best st' < cost_best p"
    using fr(3) after_best.IH by auto
  ultimately show ?case using after_best.IH kb(1,2) by simp
next
  case (after_clock st)
  then show ?case by (auto simp: perf_counter_def intro: solver_ok_cong)
next
  case (after_reset st)
  then show ?case by (auto intro: solver_ok_cong)
qed

lemma reachable_later: "later p s \<Longrightarrow> reachable g0 h0 p \<Longrightarrow> reachable g0 h0 s"
  by (induction rule: later.induct) (auto intro: reachable.intros)

lemma later_trans: "later q s \<Longrightarrow> later p q \<Longrightarrow> later p s"
  by (induction rule: later.induct) (auto intro: later.intros)

text \<open>
  Claim C9. Let \<open>p\<close> be a state of a solver built on a networkx graph, and \<open>s\<close> any state
  that follows \<open>p\<close> (after any number of ant steps, updates of the best colouring and
  readings of the clock). The dictionaries of the snapshot recorded in \<open>p\<close> hold in \<open>s\<close>
  what they held in \<open>p\<close>, the colour of every node included; and the solver's snapshot
  and its cost are those of \<open>p\<close> unless \<open>cost_best\<close> has become strictly smaller.
\<close>

theorem best_snapshot_unchanged:
  assumes "nx_graph g0" and "reachable g0 h0 p" and "later p s"
  shows "(\<forall>m \<in> set (nodes (best p)).
            cells (heap s) (node (best p) m) = cells (heap p) (node (best p) m)) \<and>
         (best s = best p \<and> cost_best s = cost_best p \<or> cost_best s < cost_best p)"
proof -
  have ok: "solver_ok p" using reachable_ok[OF assms(2,1)] by blast
  then have ba: "best_apart p" by (simp add: solver_ok_def)
  note inv = later_invariant[OF assms(3) ok]
  have "cells (heap s) (node (best p) m) = cells (heap p) (node (best p) m)"
    if m: "m \<in> set (nodes (best p))" for m
  proof -
    have "node (best p) m < fresh (heap p)" using ba m unfolding best_apart_def by blast
    moreover have "node (best p) m \<notin> node (self_g p) ` set (nodes (self_g p))"
    proof
      assume "node (best p) m \<in> node (self_g p) ` set (nodes (self_g p))"
      then obtain n where "n \<in> set (nodes (self_g p))" "node (self_g p) n = node (best p) m"
        by force
      then show False using ba m unfolding best_apart_def by blast
    qed
    ultimately show ?thesis using inv by blast
  qed
  then show ?thesis using inv by blast
qed

text \<open>The definitions to unfold for a concrete construction and ant step.\<close>

lemmas run_defs = AntSolver_def max_c_def degree_def copy_graph_def index_of_def init_solver_def
      np_choice_norepl_def arange_def rng_next_def conflict_level_def color_of_def cost_of_def
      set_cost_def set_color_def total_cost_def read_cost_def Let_def
      ant_step_def np_random_def worst_adjacent_node_def argmax_def change_to_best_def
      subgraph_def argmin_def numeral_2_eq_2

theorem best_snapshot_unchanged_witness:
  "nx_graph g_edge \<and>
   (\<exists>p s. AntSolver args_two_colors g_edge heap_edge rng_zero (\<lambda>k. 0) = Inr p \<and>
      ant_step 0 p = Inr s \<and> reachable g_edge heap_edge p \<and> later p s \<and>
      color_of (heap p) (self_g p) 1 = Some 0 \<and> color_of (heap s) (self_g s) 1 = Some 1 \<and>
      color_of (heap p) (best p) 1 = Some 0 \<and> color_of (heap s) (best p) 1 = Some 0 \<and>
      nodes (best p) = [0, 1] \<and>
      cells (heap s) (node (best p) 0) = cells (heap p) (node (best p) 0) \<and>
      cells (heap s) (node (best p) 1) = cells (heap p) (node (best p) 1))"
proof -
  have a: "nx_graph g_edge" by (simp add: nx_graph_def closed_adj_def g_edge_def)
  have "\<exists>p s. AntSolver args_two_colors g_edge heap_edge rng_zero (\<lambda>k. 0) = Inr p \<and>
      ant_step 0 p = Inr s \<and>
      color_of (heap p) (self_g p) 1 = Some 0 \<and> color_of (heap s) (self_g s) 1 = Some 1 \<and>
      color_of (heap p) (best p) 1 = Some 0 \<and> color_of (heap s) (best p) 1 = Some 0 \<and>
      nodes (best p) = [0, 1]"
    by (simp add: args_two_colors_def g_edge_def heap_edge_def rng_zero_def run_defs)
  then obtain p s where ps: "AntSolver args_two_colors g_edge heap_edge rng_zero (\<lambda>k. 0) = Inr p"
      "ant_step 0 p = Inr s"
      "color_of (heap p) (self_g p) 1 = Some 0" "color_of (heap s) (self_g s) 1 = Some 1"
      "color_of (heap p) (best p) 1 = Some 0" "color_of (heap s) (best p) 1 = Some 0"
      "nodes (best p) = [0, 1]" by blast
  have r: "reachable g_edge heap_edge p" using ps(1) by (rule reachable.constructed)
  have l: "later p s" using later.now ps(2) by (rule later.after_ant)
  from best_snapshot_unchanged[OF a r l] ps(7)
  have "cells (heap s) (node (best p) 0) = cells (heap p) (node (best p) 0)"
       "cells (heap s) (node (best p) 1) = cells (heap p) (node (best p) 1)" by simp_all
  then show ?thesis using a ps r l by blast
qed

subsection \<open>The loop of solve\<close>

lemma ants_loop_later: "ants_loop ks st = Inr st' \<Longrightarrow> later p st \<Longrightarrow> later p st'"
proof (induction ks arbitrary: st)
  case Nil
  then show ?case by simp
next
  case (Cons k ks)
  from Cons.prems(1) obtain s1 where "ant_step k st = Inr s1" "ants_loop ks s1 = Inr st'"
    by (auto split: sum.splits)
  then show ?case using Cons.IH Cons.prems(2) later.after_ant by blast
qed

lemma sweep_pair_cong:
  assumes "self_g p' = self_g p" "best p' = best p" "heap p' = heap p" "cost_best p' = cost_best p"
  shows "sweep_pair p' s = sweep_pair p s"
  by (simp add: sweep_pair_def assms)

lemma trail_cong:
  assumes "self_g p' = self_g p" "best p' = best p" "heap p' = heap p" "cost_best p' = cost_best p"
  shows "trail p' ss = trail p ss"
  by (cases ss) (simp_all add: sweep_pair_cong[OF assms])

lemma sweep_pair_intro:
  assumes ok: "solver_ok p" and sw: "sweep p = Inr s2" and kb: "keep_best s2 = Inr s"
  shows "sweep_pair p s"
proof -
  from sw have al: "ants_loop [0 ..< nat (n_ants p)] p = Inr s2" by (simp add: sweep_def)
  from ants_loop_ok[OF ok al] have ok2: "solver_ok s2" and g2: "self_g s2 = self_g p"
    and b2: "best s2 = best p" and c2: "cost_best s2 = cost_best p"
    and keep: "\<forall>m \<in> set (nodes (best p)).
            cells (heap s2) (node (best p) m) = cells (heap p) (node (best p) m)"
    by blast+
  note k = keep_best_ok[OF ok2 kb]
  show ?thesis
    unfolding sweep_pair_def
  proof (intro conjI)
    show "solver_ok s" by (rule k(1))
    show "self_g s = self_g p" using k(2) g2 by simp
    show "total_cost (heap s) (self_g s) = Inr (curr_cost s)" by (rule k(4))
    show "cost_best s = min (cost_best p) (curr_cost s)" using k(5) c2 by simp
    show "if curr_cost s < cost_best p
       then nodes (best s) = nodes (self_g s) \<and>
            (\<forall>n \<in> set (nodes (self_g s)).
               color_of (heap s) (best s) n = color_of (heap s) (self_g s) n)
       else best s = best p \<and>
            (\<forall>m \<in> set (nodes (best p)).
               cells (heap s) (node (best p) m) = cells (heap p) (node (best p) m))"
    proof (cases "curr_cost s < cost_best p")
      case True
      then show ?thesis using k(7) c2 by simp
    next
      case False
      then have "best s = best s2 \<and> heap s = heap s2" using k(6) c2 by simp
      then show ?thesis using False b2 keep by simp
    qed
  qed
qed

lemma sweep_then_best_later:
  assumes "sweep p = Inr s2" and "keep_best s2 = Inr s"
  shows "later p s"
proof -
  from assms(1) have "ants_loop [0 ..< nat (n_ants p)] p = Inr s2" by (simp add: sweep_def)
  then have "later p s2" using later.now by (rule ants_loop_later)
  then show ?thesis using assms(2) by (rule later.after_best)
qed

lemma perf_counter_fields:
  "snd (perf_counter st) = st\<lparr>clock := (\<lambda>k. clock st (Suc k))\<rparr>"
  "fst (perf_counter st) = clock st 0"
  by (simp_all add: perf_counter_def)

lemma solver_ok_clock: "solver_ok (st\<lparr>clock := c\<rparr>) = solver_ok st"
  by (simp add: solver_ok_def best_apart_def)

lemma solve_loop_trail:
  assumes "solve_loop tic0 st0 tr0 = Some y0"
  shows "run_ok st0 tr0 y0"
proof (rule solve_loop.raw_induct[where P = "\<lambda>tic st tr y. run_ok st tr y", OF _ assms])
  fix f tic st tr y
  assume IH: "\<And>tic st tr y. f tic st tr = Some y \<Longrightarrow> run_ok st tr y"
    and body: "(if \<not> (0 < cost_best st \<and> self_i st < max_iters st) then Some (Inr (st, tr))
      else (let (t, st1) = perf_counter st in
            if \<not> (t - tic < max_time st1) then Some (Inr (st1, tr))
            else (case sweep st1 of
                    Inl e \<Rightarrow> Some (Inl e)
                  | Inr st2 \<Rightarrow>
                      (case keep_best st2 of
                         Inl e \<Rightarrow> Some (Inl e)
                       | Inr st3 \<Rightarrow>
                           if cost_best st3 = 0 then Some (Inr (st3, tr @ [st3]))
                           else (let (t', st4) = perf_counter st3 in
                                 if max_time st4 < t' - tic then Some (Inr (st4, tr @ [st3]))
                                 else f tic st4 (tr @ [st3])))))) = Some y"
  let ?st1 = "snd (perf_counter st)" and ?t = "fst (perf_counter st)"
  show "run_ok st tr y"
    unfolding run_ok_def
  proof (intro impI allI)
    fix st' tr'
    assume ok: "solver_ok st" and y: "y = Inr (st', tr')"
    have st1: "?st1 = st\<lparr>clock := (\<lambda>k. clock st (Suc k))\<rparr>" by (rule perf_counter_fields)
    have l1: "later st ?st1" using later.now by (rule later.after_clock)
    have ok1: "solver_ok ?st1" using ok by (simp add: st1 solver_ok_clock)
    show "\<exists>new c. tr' = tr @ new \<and> trail st new \<and> st' = (last (st # new))\<lparr>clock := c\<rparr> \<and>
                     (\<forall>s \<in> set (st' # new). later st s)"
    proof (cases "0 < cost_best st \<and> self_i st < max_iters st")
      case False
      with body y have "st' = st" "tr' = tr" by auto
      then have "tr' = tr @ [] \<and> trail st [] \<and> st' = (last (st # []))\<lparr>clock := clock st\<rparr> \<and>
                     (\<forall>s \<in> set (st' # []). later st s)"
        using later.now by simp
      then show ?thesis by blast
    next
      case go: True
      show ?thesis
      proof (cases "?t - tic < max_time ?st1")
        case False
        with body y go have "st' = ?st1" "tr' = tr"
          by (auto simp: case_prod_beta Let_def)
        then have "tr' = tr @ [] \<and> trail st [] \<and>
                   st' = (last (st # []))\<lparr>clock := (\<lambda>k. clock st (Suc k))\<rparr> \<and>
                     (\<forall>s \<in> set (st' # []). later st s)"
          using l1 st1 by simp
        then show ?thesis by blast
      next
        case time: True
        from body y go time obtain st2 where sw: "sweep ?st1 = Inr st2"
          by (cases "sweep ?st1") (auto simp: case_prod_beta Let_def)
        from body y go time sw obtain st3 where kb: "keep_best st2 = Inr st3"
          by (cases "keep_best st2") (auto simp: case_prod_beta Let_def)
        have "sweep_pair ?st1 st3" using ok1 sw kb by (rule sweep_pair_intro)
        then have sp: "sweep_pair st st3"
          by (subst (asm) sweep_pair_cong[where p = st]) (simp_all add: st1)
        have l3: "later st st3"
          using sweep_then_best_later[OF sw kb] l1 by (rule later_trans)
        have ok3: "solver_ok st3" using sp by (simp add: sweep_pair_def)
        let ?st4 = "snd (perf_counter st3)" and ?t' = "fst (perf_counter st3)"
        have st4: "?st4 = st3\<lparr>clock := (\<lambda>k. clock st3 (Suc k))\<rparr>" by (rule perf_counter_fields)
        have l4: "later st ?st4" using l3 by (rule later.after_clock)
        show ?thesis
        proof (cases "cost_best st3 = 0")
          case True
          with body y go time sw kb have "st' = st3" "tr' = tr @ [st3]"
            by (auto simp: case_prod_beta Let_def)
          then have "tr' = tr @ [st3] \<and> trail st [st3] \<and>
                     st' = (last (st # [st3]))\<lparr>clock := clock st3\<rparr> \<and>
                     (\<forall>s \<in> set (st' # [st3]). later st s)"
            using sp l3 by simp
          then show ?thesis by blast
        next
          case more: False
          show ?thesis
          proof (cases "max_time ?st4 < ?t' - tic")
            case True
            with body y go time sw kb more have "st' = ?st4" "tr' = tr @ [st3]"
              by (auto simp: case_prod_beta Let_def)
            then have "tr' = tr @ [st3] \<and> trail st [st3] \<and>
                     st' = (last (st # [st3]))\<lparr>clock := (\<lambda>k. clock st3 (Suc k))\<rparr> \<and>
                     (\<forall>s \<in> set (st' # [st3]). later st s)"
              using sp l3 l4 st4 by simp
            then show ?thesis by blast
          next
            case False
            with body y go time sw kb more have rec: "f tic ?st4 (tr @ [st3]) = Some y"
              by (auto simp: case_prod_beta Let_def)
            have ok4: "solver_ok ?st4" using ok3 by (simp add: st4 solver_ok_clock)
            from IH[OF rec] ok4 y obtain new c where
              n: "tr' = (tr @ [st3]) @ new" "trail ?st4 new"
                "st' = (last (?st4 # new))\<lparr>clock := c\<rparr>"
                "\<forall>s \<in> set (st' # new). later ?st4 s"
              unfolding run_ok_def by blast
            have t3: "trail st3 new"
              using n(2) by (subst (asm) trail_cong[where p = st3]) (simp_all add: st4)
            have last: "st' = (last (st # st3 # new))\<lparr>clock := c\<rparr>"
              using n(3) by (cases "new = []") (simp_all add: st4)
            have lat: "\<forall>s \<in> set (st' # st3 # new). later st s"
              using n(4) l3 l4 later_trans by auto
            have "tr' = tr @ (st3 # new) \<and> trail st (st3 # new) \<and>
                  st' = (last (st # st3 # new))\<lparr>clock := c\<rparr> \<and>
                  (\<forall>s \<in> set (st' # st3 # new). later st s)"
              using n(1) sp t3 last lat by simp
            then show ?thesis by blast
          qed
        qed
      qed
    qed
  qed
qed

subsection \<open>The best cost along a run\<close>

lemma solve_trail:
  assumes ok: "solver_ok st0" and s: "solve st0 = Some (Inr (st', tr))"
  shows "trail st0 tr" and "cost_best st' = cost_best (last (st0 # tr))"
    and "best st' = best (last (st0 # tr))" and "heap st' = heap (last (st0 # tr))"
    and "later st0 st'" and "\<forall>s \<in> set tr. later st0 s"
proof -
  let ?s0 = "(snd (perf_counter st0))\<lparr>self_i := 0\<rparr>"
  have s0: "?s0 = st0\<lparr>clock := (\<lambda>k. clock st0 (Suc k)), self_i := 0\<rparr>"
    by (simp add: perf_counter_def)
  have ok0: "solver_ok ?s0" using ok by (auto simp: s0 intro: solver_ok_cong)
  have l0: "later st0 ?s0" using later.now later.after_clock later.after_reset by blast
  from s have "solve_loop (fst (perf_counter st0)) ?s0 [] = Some (Inr (st', tr))"
    by (simp add: solve_def case_prod_beta)
  from solve_loop_trail[OF this] ok0 obtain c where
    t: "trail ?s0 tr" and f: "st' = (last (?s0 # tr))\<lparr>clock := c\<rparr>"
    and l: "\<forall>s \<in> set (st' # tr). later ?s0 s"
    unfolding run_ok_def by auto
  show "trail st0 tr" using t by (subst (asm) trail_cong[where p = st0]) (simp_all add: s0)
  show "cost_best st' = cost_best (last (st0 # tr))" "best st' = best (last (st0 # tr))"
    "heap st' = heap (last (st0 # tr))"
    using f by (cases "tr = []"; simp add: s0)+
  show "later st0 st'" "\<forall>s \<in> set tr. later st0 s"
    using l l0 later_trans by auto
qed

lemma trail_nth:
  "trail p ss \<Longrightarrow> k < length ss \<Longrightarrow> sweep_pair ((p # ss) ! k) (ss ! k)"
proof (induction ss arbitrary: p k)
  case Nil
  then show ?case by simp
next
  case (Cons s ss)
  then show ?case by (cases k) auto
qed

lemma trail_take: "trail p ss \<Longrightarrow> trail p (take n ss)"
proof (induction ss arbitrary: p n)
  case Nil
  then show ?case by simp
next
  case (Cons s ss)
  then show ?case by (cases n) auto
qed

lemma Min_insert_min:
  assumes "finite X"
  shows "Min (insert (min a b) X) = Min (insert (a::nat) (insert b X))"
proof (cases "X = {}")
  case True
  then show ?thesis by simp
next
  case False
  then show ?thesis using assms by (simp add: min.assoc)
qed

lemma trail_last_min:
  "trail p ss \<Longrightarrow> cost_best (last (p # ss)) = Min (insert (cost_best p) (curr_cost ` set ss))"
proof (induction ss arbitrary: p)
  case Nil
  then show ?case by simp
next
  case (Cons s ss)
  then have sp: "sweep_pair p s" and t: "trail s ss" by simp_all
  have cb: "cost_best s = min (cost_best p) (curr_cost s)" using sp by (simp add: sweep_pair_def)
  have "cost_best (last (p # s # ss)) = cost_best (last (s # ss))" by simp
  also have "\<dots> = Min (insert (cost_best s) (curr_cost ` set ss))" using Cons.IH[OF t] .
  also have "\<dots> = Min (insert (cost_best p) (insert (curr_cost s) (curr_cost ` set ss)))"
    unfolding cb by (rule Min_insert_min) simp
  finally show ?case by simp
qed

text \<open>
  Claim C5. For a solver built on a networkx graph and a run of \<open>solve\<close> that returns,
  with \<open>tr\<close> the states after the completed sweeps: \<open>cost_best\<close> starts as the total
  cost of the initial colouring; after each sweep \<open>curr_cost\<close> is the total cost of the
  working colouring and \<open>cost_best\<close> is the smaller of its former value and
  \<open>curr_cost\<close>; the snapshot is another one only if \<open>curr_cost\<close> was strictly below the
  former \<open>cost_best\<close>; so \<open>cost_best\<close> never grows from one sweep to the next, and
  after each sweep, as at the end of the run, it is the minimum of the initial total
  cost and the total costs after the sweeps so far.
\<close>

theorem best_cost_running_minimum:
  assumes "nx_graph g0" and "AntSolver a g0 h0 r clk = Inr st0"
    and "solve st0 = Some (Inr (st', tr))"
  shows "total_cost (heap st0) (self_g st0) = Inr (cost_best st0) \<and>
         (\<forall>k < length tr.
            total_cost (heap (tr ! k)) (self_g (tr ! k)) = Inr (curr_cost (tr ! k)) \<and>
            cost_best (tr ! k) = min (cost_best ((st0 # tr) ! k)) (curr_cost (tr ! k)) \<and>
            (best (tr ! k) \<noteq> best ((st0 # tr) ! k) \<longrightarrow>
               curr_cost (tr ! k) < cost_best ((st0 # tr) ! k)) \<and>
            cost_best (tr ! k) \<le> cost_best ((st0 # tr) ! k) \<and>
            cost_best (tr ! k)
              = Min (insert (cost_best st0) (curr_cost ` set (take (Suc k) tr)))) \<and>
         cost_best st' = Min (insert (cost_best st0) (curr_cost ` set tr))"
proof -
  note init = AntSolver_ok[OF assms(1,2)]
  note run = solve_trail[OF init(1) assms(3)]
  have 1: "total_cost (heap st0) (self_g st0) = Inr (cost_best st0)" by (rule init(2))
  have 3: "cost_best st' = Min (insert (cost_best st0) (curr_cost ` set tr))"
    using run(2) trail_last_min[OF run(1)] by simp
  have 2: "total_cost (heap (tr ! k)) (self_g (tr ! k)) = Inr (curr_cost (tr ! k)) \<and>
            cost_best (tr ! k) = min (cost_best ((st0 # tr) ! k)) (curr_cost (tr ! k)) \<and>
            (best (tr ! k) \<noteq> best ((st0 # tr) ! k) \<longrightarrow>
               curr_cost (tr ! k) < cost_best ((st0 # tr) ! k)) \<and>
            cost_best (tr ! k) \<le> cost_best ((st0 # tr) ! k) \<and>
            cost_best (tr ! k)
              = Min (insert (cost_best st0) (curr_cost ` set (take (Suc k) tr)))"
    if k: "k < length tr" for k
  proof -
    have sp: "sweep_pair ((st0 # tr) ! k) (tr ! k)" using run(1) k by (rule trail_nth)
    have "take (Suc k) tr = take k tr @ [tr ! k]" using k by (rule take_Suc_conv_app_nth)
    then have "last (st0 # take (Suc k) tr) = tr ! k" by simp
    then have m: "cost_best (tr ! k)
        = Min (insert (cost_best st0) (curr_cost ` set (take (Suc k) tr)))"
      using trail_last_min[OF trail_take[OF run(1), of "Suc k"]] by simp
    show ?thesis using sp m unfolding sweep_pair_def by (auto split: if_splits)
  qed
  show ?thesis using 1 2 3 by blast
qed

text \<open>The further definitions to unfold for a concrete run of \<open>solve\<close>.\<close>

lemmas solve_defs = solve_def solve_loop.simps perf_counter_def sweep_def keep_best_def

theorem best_cost_running_minimum_witness:
  "nx_graph g_edge \<and>
   (\<exists>st0 st' tr. AntSolver args_two_colors g_edge heap_edge rng_zero (\<lambda>k. 0) = Inr st0 \<and>
      solve st0 = Some (Inr (st', tr)) \<and> length tr = 1 \<and> cost_best st0 = 2 \<and>
      curr_cost (tr ! 0) = 0 \<and> cost_best st' = 0 \<and>
      cost_best st' = Min (insert (cost_best st0) (curr_cost ` set tr)))"
proof -
  have a: "nx_graph g_edge" by (simp add: nx_graph_def closed_adj_def g_edge_def)
  have "\<exists>st0 st' tr. AntSolver args_two_colors g_edge heap_edge rng_zero (\<lambda>k. 0) = Inr st0 \<and>
      solve st0 = Some (Inr (st', tr)) \<and> length tr = 1 \<and> cost_best st0 = 2 \<and>
      curr_cost (tr ! 0) = 0 \<and> cost_best st' = 0"
    by (simp add: args_two_colors_def g_edge_def heap_edge_def rng_zero_def run_defs solve_defs)
  then obtain st0 st' tr where
    s: "AntSolver args_two_colors g_edge heap_edge rng_zero (\<lambda>k. 0) = Inr st0"
      "solve st0 = Some (Inr (st', tr))" "length tr = 1" "cost_best st0 = 2"
      "curr_cost (tr ! 0) = 0" "cost_best st' = 0" by blast
  from best_cost_running_minimum[OF a s(1,2)]
  have "cost_best st' = Min (insert (cost_best st0) (curr_cost ` set tr))" by blast
  then show ?thesis using a s by blast
qed

end
